theory Spec2Isabelle
  imports Main "HOL-Library.Multiset"
begin

section \<open>Values of the scripting runtime\<close>

text \<open>
  Plugin state is ordinary JavaScript data. Objects and arrays have identity and may be
  shared or cyclic, so they live in a store and values refer to them by address.
  \<^item> \<open>VFun\<close> is any function value (\<open>typeof v === "function"\<close>), the number is a tag.
  \<^item> \<open>VNum\<close> carries an integer; no check in the modelled code looks at the number.
  \<^item> \<open>Obj own inherited\<close> is a non-array object: \<open>own\<close> are its own enumerable
    string-keyed properties in insertion order (what \<open>Object.entries\<close> yields),
    \<open>inherited\<close> are the properties it has through its prototype chain (what the
    \<open>in\<close> operator additionally sees).
\<close>

type_synonym addr = nat

datatype jsval =
    VUndefined
  | VNull
  | VBool bool
  | VNum int
  | VStr string
  | VFun nat
  | VRef addr

datatype obj =
    Arr "jsval list"
  | Obj "(string \<times> jsval) list" "(string \<times> jsval) list"

type_synonym heap = "obj list"

text \<open>An address outside the store does not occur in a running script; the model
  reads it as an object without properties.\<close>

definition deref :: "heap \<Rightarrow> addr \<Rightarrow> obj" where
  "deref h a = (if a < length h then h ! a else Obj [] [])"

datatype jstype = TUndefined | TObject | TBoolean | TNumber | TString | TFunction

fun typeof :: "jsval \<Rightarrow> jstype" where
  "typeof VUndefined = TUndefined"
| "typeof VNull = TObject"
| "typeof (VBool _) = TBoolean"
| "typeof (VNum _) = TNumber"
| "typeof (VStr _) = TString"
| "typeof (VFun _) = TFunction"
| "typeof (VRef _) = TObject"

fun typeof_name :: "jstype \<Rightarrow> string" where
  "typeof_name TUndefined = ''undefined''"
| "typeof_name TObject = ''object''"
| "typeof_name TBoolean = ''boolean''"
| "typeof_name TNumber = ''number''"
| "typeof_name TString = ''string''"
| "typeof_name TFunction = ''function''"

text \<open>JavaScript truthiness, as used by \<open>if (state[name])\<close>.\<close>

fun truthy :: "jsval \<Rightarrow> bool" where
  "truthy VUndefined = False"
| "truthy VNull = False"
| "truthy (VBool b) = b"
| "truthy (VNum n) = (n \<noteq> 0)"
| "truthy (VStr s) = (s \<noteq> [])"
| "truthy (VFun _) = True"
| "truthy (VRef _) = True"

section \<open>Plugins and descriptors (plugin.ts)\<close>

text \<open>
  A plugin method is a closure with arbitrary effects. Everything a plugin can touch
  (the object store and the rest of the game world, \<open>'x\<close>) is passed in and returned;
  a call either returns a value or throws.
\<close>

datatype 'a outcome = Returned 'a | Threw string

type_synonym ('a, 'x) meth = "heap \<times> 'x \<Rightarrow> 'a outcome \<times> heap \<times> 'x"

text \<open>
  The orchestrator probes methods with \<open>typeof m === "function"\<close>, so every method
  is optional in the model (\<open>None\<close>: the property is not a function). The notification
  hooks of the fan-out dispatcher are left out: no property below depends on them.
\<close>

record ('x, 'e) Plugin =
  init :: "(unit, 'x) meth option"
  cleanup :: "(unit, 'x) meth option"
  getState :: "(jsval, 'x) meth option"
  restoreState :: "(jsval \<Rightarrow> (unit, 'x) meth) option"
  onBeforePlayerDamage :: "('e \<Rightarrow> (jsval, 'x) meth) option"
  onHotReloadComplete :: "(unit, 'x) meth option"

text \<open>Priorities are integers, as in the data model of the specification.\<close>

record ('x, 'e) PluginDescriptor =
  name :: string
  create :: "(('x, 'e) Plugin, 'x) meth"
  priority :: "int option"

definition DEFAULT_PRIORITY :: int where
  "DEFAULT_PRIORITY = 100"

section \<open>Ordering (gamemode-orchestrator.ts, getOrderedPlugins)\<close>

record ('x, 'e) GamemodeConfig =
  plugins :: "('x, 'e) PluginDescriptor list"
  enabledPlugins :: "string list option"

text \<open>
  \<open>Array.prototype.sort\<close> with a comparator is the language's stable sort: an element
  is placed before the first element that the comparator orders strictly after it.
\<close>

fun sort_insert :: "('a \<Rightarrow> 'a \<Rightarrow> int) \<Rightarrow> 'a \<Rightarrow> 'a list \<Rightarrow> 'a list" where
  "sort_insert cmp x [] = [x]"
| "sort_insert cmp x (y # ys) =
     (if cmp x y \<le> 0 then x # y # ys else y # sort_insert cmp x ys)"

fun array_sort :: "('a \<Rightarrow> 'a \<Rightarrow> int) \<Rightarrow> 'a list \<Rightarrow> 'a list" where
  "array_sort cmp [] = []"
| "array_sort cmp (x # xs) = sort_insert cmp x (array_sort cmp xs)"

text \<open>\<open>priority ?? DEFAULT_PRIORITY\<close>\<close>

definition priority_or_default :: "('x, 'e) PluginDescriptor \<Rightarrow> int" where
  "priority_or_default d = (case priority d of None \<Rightarrow> DEFAULT_PRIORITY | Some p \<Rightarrow> p)"

definition hasEnabledList :: "('x, 'e) GamemodeConfig \<Rightarrow> bool" where
  "hasEnabledList cfg = (case enabledPlugins cfg of None \<Rightarrow> False | Some l \<Rightarrow> length l > 0)"

definition enabledNames :: "('x, 'e) GamemodeConfig \<Rightarrow> string list" where
  "enabledNames cfg = (case enabledPlugins cfg of None \<Rightarrow> [] | Some l \<Rightarrow> l)"

definition pluginsToLoad :: "('x, 'e) GamemodeConfig \<Rightarrow> ('x, 'e) PluginDescriptor list" where
  "pluginsToLoad cfg =
     (if hasEnabledList cfg
      then filter (\<lambda>d. name d \<in> set (enabledNames cfg)) (plugins cfg)
      else plugins cfg)"

definition getOrderedPlugins :: "('x, 'e) GamemodeConfig \<Rightarrow> ('x, 'e) PluginDescriptor list" where
  "getOrderedPlugins cfg =
     array_sort (\<lambda>a b. priority_or_default a - priority_or_default b) (pluginsToLoad cfg)"


section \<open>State validation (state-utils.ts, validateStateShape)\<close>

text \<open>Decimal rendering of an array index inside a template string.\<close>

definition digit_char :: "nat \<Rightarrow> char" where
  "digit_char d = ''0123456789'' ! d"

fun string_of_nat :: "nat \<Rightarrow> string" where
  "string_of_nat n = (if n < 10 then [digit_char n] else string_of_nat (n div 10) @ [digit_char (n mod 10)])"

declare string_of_nat.simps [simp del]

text \<open>\<open>Array.prototype.join\<close>\<close>

fun join :: "string \<Rightarrow> string list \<Rightarrow> string" where
  "join sep [] = []"
| "join sep [x] = x"
| "join sep (x # y # ys) = x @ sep @ join sep (y # ys)"

text \<open>\<open>"IsValid" in value && typeof value.IsValid === "function"\<close>: the property is looked
  up on the object itself first, then on its prototype chain.\<close>

definition isEntityLike :: "obj \<Rightarrow> bool" where
  "isEntityLike ob =
     (case ob of
        Arr _ \<Rightarrow> False
      | Obj own inherited \<Rightarrow>
          (case map_of own ''IsValid'' of
             Some v \<Rightarrow> typeof v = TFunction
           | None \<Rightarrow> (case map_of inherited ''IsValid'' of
                        Some v \<Rightarrow> typeof v = TFunction
                      | None \<Rightarrow> False)))"

text \<open>
  \<open>checkValue\<close> is a closure over the identity set \<open>seen\<close> and the list \<open>issues\<close>; the
  pair of both is threaded through the walk. The walk recurses through the object graph,
  so it carries fuel: one unit is spent each time it descends into an object, and \<open>None\<close>
  means the fuel ran out before the walk returned. \<open>checkChildren\<close> is the \<open>forEach\<close> over
  the items of an array or the \<open>Object.entries\<close> of an object, each child paired with
  its path.
\<close>

type_synonym walk = "addr set \<times> string list"

function checkValue :: "nat \<Rightarrow> heap \<Rightarrow> jsval \<Rightarrow> string \<Rightarrow> walk \<Rightarrow> walk option"
  and checkChildren :: "nat \<Rightarrow> heap \<Rightarrow> (string \<times> jsval) list \<Rightarrow> walk \<Rightarrow> walk option"
where
  "checkValue fuel h v path w =
     (case v of
        VNull \<Rightarrow> Some w
      | VUndefined \<Rightarrow> Some w
      | VFun f \<Rightarrow>
          Some (fst w, snd w @ [''Function at '' @ path @ '' - functions cannot be serialized''])
      | VRef a \<Rightarrow>
          (if a \<in> fst w then Some (fst w, snd w @ [''Circular reference at '' @ path])
           else if isEntityLike (deref h a)
             then Some (insert a (fst w),
               snd w @ [''Entity reference at '' @ path @ '' - store entity names as strings instead''])
           else (case fuel of
                   0 \<Rightarrow> None
                 | Suc fuel' \<Rightarrow>
                    (case deref h a of
                       Arr items \<Rightarrow>
                         checkChildren fuel' h
                           (map (\<lambda>(index, item). (path @ ''['' @ string_of_nat index @ '']'', item))
                              (enumerate 0 items))
                           (insert a (fst w), snd w)
                     | Obj own inherited \<Rightarrow>
                         checkChildren fuel' h
                           (map (\<lambda>(key, val). (path @ ''.'' @ key, val)) own)
                           (insert a (fst w), snd w))))
      | _ \<Rightarrow> Some w)"
| "checkChildren fuel h [] w = Some w"
| "checkChildren fuel h (c # rest) w =
     (case checkValue fuel h (snd c) (fst c) w of
        None \<Rightarrow> None
      | Some w' \<Rightarrow> checkChildren fuel h rest w')"
  by pat_completeness auto
termination
  by (relation "measures [\<lambda>x. case x of Inl (fuel, _) \<Rightarrow> fuel | Inr (fuel, _) \<Rightarrow> fuel,
                          \<lambda>x. case x of Inl _ \<Rightarrow> 0 | Inr (_, _, cs, _) \<Rightarrow> Suc (length cs)]") auto

declare checkValue.simps [simp del]

record ValidationResult =
  valid :: bool
  error :: "string option"

text \<open>The two operands of \<open>typeof state !== "object" || state === null\<close> are tested in
  turn.\<close>

definition validateStateShape :: "nat \<Rightarrow> heap \<Rightarrow> jsval \<Rightarrow> string \<Rightarrow> ValidationResult option" where
  "validateStateShape fuel h state featureName =
     (let notAnObject = Some \<lparr> valid = False,
            error = Some (''State must be an object, got '' @ typeof_name (typeof state)) \<rparr>
      in if typeof state \<noteq> TObject then notAnObject
         else if state = VNull then notAnObject
         else (case checkValue fuel h state ''state'' ({}, []) of
                 None \<Rightarrow> None
               | Some (seen, issues) \<Rightarrow>
                   Some (if length issues > 0
                         then \<lparr> valid = False, error = Some (join ''; '' issues) \<rparr>
                         else \<lparr> valid = True, error = None \<rparr>)))"

section \<open>Event bus (event-bus.ts)\<close>

text \<open>
  A handler is a closure; what it can do to the bus is call the bus. The model gives a
  handler a reference (a number) and a body: the list of bus calls it makes when it is
  invoked with the event data, in order, where \<open>Throw\<close> ends the body with an exception.
  The bodies of all handlers are a table \<open>nat \<Rightarrow> 'd \<Rightarrow> 'd action list\<close>, so a handler
  may subscribe itself or another handler.
\<close>

datatype 'd action =
    On string nat
  | Once string nat
  | Off nat
  | Emit string 'd
  | Clear string
  | ClearAll
  | Throw string

record Subscription =
  subId :: nat
  eventName :: string
  handler :: nat
  once :: bool

text \<open>
  \<open>subscriptions\<close> is the \<open>Map<string, Subscription[]>\<close> in insertion order. Its values are
  arrays, which are objects: the map holds their addresses and \<open>arrays\<close> holds their
  contents, so that a loop over an array sees the calls that change it, and keeps the
  array it started with when the map entry is deleted and created again.
  \<open>invoked\<close> is not a variable of the source: it records the id of the subscription of
  each handler call, in the order of the calls. \<open>errors\<close> are the messages of the
  \<open>catch\<close> in \<open>emit\<close>; the debug log is left out.
\<close>

record EventBus =
  subscriptions :: "(string \<times> addr) list"
  arrays :: "Subscription list list"
  nextId :: nat
  invoked :: "nat list"
  errors :: "string list"

text \<open>A string between double quotes, as the messages print event names.\<close>

definition quoted :: "string \<Rightarrow> string" where
  "quoted s = CHR 0x22 # s @ [CHR 0x22]"

definition createEventBus :: EventBus where
  "createEventBus = \<lparr> subscriptions = [], arrays = [], nextId = 1, invoked = [], errors = [] \<rparr>"

definition subscribers :: "EventBus \<Rightarrow> string \<Rightarrow> Subscription list" where
  "subscribers b e = (case map_of (subscriptions b) e of None \<Rightarrow> [] | Some a \<Rightarrow> arrays b ! a)"

definition addSubscription :: "string \<Rightarrow> nat \<Rightarrow> bool \<Rightarrow> EventBus \<Rightarrow> nat \<times> EventBus" where
  "addSubscription e hnd onc b =
     (let i = nextId b;
          b1 = b\<lparr> nextId := nextId b + 1 \<rparr>;
          subscription = \<lparr> subId = i, eventName = e, handler = hnd, once = onc \<rparr>;
          (a, b2) = (case map_of (subscriptions b1) e of
                       Some a \<Rightarrow> (a, b1)
                     | None \<Rightarrow> (length (arrays b1),
                         b1\<lparr> arrays := arrays b1 @ [[]],
                             subscriptions := subscriptions b1 @ [(e, length (arrays b1))] \<rparr>))
      in (i, b2\<lparr> arrays := (arrays b2)[a := arrays b2 ! a @ [subscription]] \<rparr>))"

definition on :: "string \<Rightarrow> nat \<Rightarrow> EventBus \<Rightarrow> nat \<times> EventBus" where
  "on e hnd b = addSubscription e hnd False b"

definition once_sub :: "string \<Rightarrow> nat \<Rightarrow> EventBus \<Rightarrow> nat \<times> EventBus" where
  "once_sub e hnd b = addSubscription e hnd True b"

text \<open>\<open>findIndex\<close>: the first index whose element satisfies the predicate.\<close>

fun findIndex :: "('a \<Rightarrow> bool) \<Rightarrow> 'a list \<Rightarrow> nat option" where
  "findIndex P [] = None"
| "findIndex P (x # xs) = (if P x then Some 0 else map_option Suc (findIndex P xs))"

text \<open>\<open>splice(index, 1)\<close>\<close>

definition splice1 :: "nat \<Rightarrow> 'a list \<Rightarrow> 'a list" where
  "splice1 i xs = take i xs @ drop (Suc i) xs"

text \<open>\<open>off\<close> walks the entries of the map and returns at the first array that holds the id.\<close>

fun off_entries :: "(string \<times> addr) list \<Rightarrow> nat \<Rightarrow> EventBus \<Rightarrow> EventBus" where
  "off_entries [] subscriptionId b = b"
| "off_entries ((e, a) # rest) subscriptionId b =
     (case findIndex (\<lambda>s. subId s = subscriptionId) (arrays b ! a) of
        Some index \<Rightarrow>
          (let b1 = b\<lparr> arrays := (arrays b)[a := splice1 index (arrays b ! a)] \<rparr>
           in if length (arrays b1 ! a) = 0
              then b1\<lparr> subscriptions := filter (\<lambda>(k, _). k \<noteq> e) (subscriptions b1) \<rparr>
              else b1)
      | None \<Rightarrow> off_entries rest subscriptionId b)"

definition off :: "nat \<Rightarrow> EventBus \<Rightarrow> EventBus" where
  "off subscriptionId b = off_entries (subscriptions b) subscriptionId b"

definition clear :: "string \<Rightarrow> EventBus \<Rightarrow> EventBus" where
  "clear e b = b\<lparr> subscriptions := filter (\<lambda>(k, _). k \<noteq> e) (subscriptions b) \<rparr>"

definition clearAll :: "EventBus \<Rightarrow> EventBus" where
  "clearAll b = b\<lparr> subscriptions := [], nextId := 1 \<rparr>"

definition hasSubscribers :: "string \<Rightarrow> EventBus \<Rightarrow> bool" where
  "hasSubscribers e b = (case map_of (subscriptions b) e of None \<Rightarrow> False | Some a \<Rightarrow> length (arrays b ! a) > 0)"

definition subscriberCount :: "string \<Rightarrow> EventBus \<Rightarrow> nat" where
  "subscriberCount e b = (case map_of (subscriptions b) e of None \<Rightarrow> 0 | Some a \<Rightarrow> length (arrays b ! a))"

text \<open>
  \<open>emit\<close> takes the array of the event from the map and loops over it with \<open>for ... of\<close>:
  the array iterator keeps an index and compares it with the current length of that same
  array before each step. Handlers may call \<open>emit\<close> themselves and may subscribe
  themselves, so neither the recursion nor the loop is bounded; the model carries fuel,
  spent by each handler call and each nested \<open>emit\<close>, and \<open>None\<close> means that the fuel ran
  out.
  \<^item> \<open>run\<close> executes the body of a handler; its result says whether the body threw.
  \<^item> \<open>deliver\<close> is the loop; \<open>index\<close> is the iterator's position and \<open>toRemove\<close> the ids
    collected so far.
\<close>

function run :: "nat \<Rightarrow> (nat \<Rightarrow> 'd \<Rightarrow> 'd action list) \<Rightarrow> 'd action list \<Rightarrow> EventBus
      \<Rightarrow> (string option \<times> EventBus) option"
  and deliver :: "nat \<Rightarrow> (nat \<Rightarrow> 'd \<Rightarrow> 'd action list) \<Rightarrow> string \<Rightarrow> 'd \<Rightarrow> addr \<Rightarrow> nat \<Rightarrow> nat list
      \<Rightarrow> EventBus \<Rightarrow> (nat list \<times> EventBus) option"
  and emit :: "nat \<Rightarrow> (nat \<Rightarrow> 'd \<Rightarrow> 'd action list) \<Rightarrow> string \<Rightarrow> 'd \<Rightarrow> EventBus \<Rightarrow> EventBus option"
where
  "run fuel body [] b = Some (None, b)"
| "run fuel body (act # rest) b =
     (case act of
        On e hnd \<Rightarrow> run fuel body rest (snd (on e hnd b))
      | Once e hnd \<Rightarrow> run fuel body rest (snd (once_sub e hnd b))
      | Off i \<Rightarrow> run fuel body rest (off i b)
      | Clear e \<Rightarrow> run fuel body rest (clear e b)
      | ClearAll \<Rightarrow> run fuel body rest (clearAll b)
      | Throw msg \<Rightarrow> Some (Some msg, b)
      | Emit e d \<Rightarrow>
          (case fuel of
             0 \<Rightarrow> None
           | Suc fuel' \<Rightarrow>
              (case emit fuel' body e d b of
                 None \<Rightarrow> None
               | Some b' \<Rightarrow> run fuel body rest b')))"
| "deliver fuel body e d a index toRemove b =
     (if index < length (arrays b ! a)
      then (case fuel of
              0 \<Rightarrow> None
            | Suc fuel' \<Rightarrow>
               (let sub = arrays b ! a ! index in
                case run fuel' body (body (handler sub) d) (b\<lparr> invoked := invoked b @ [subId sub] \<rparr>) of
                  None \<Rightarrow> None
                | Some (None, b') \<Rightarrow>
                    deliver fuel' body e d a (Suc index)
                      (if once sub then toRemove @ [subId sub] else toRemove) b'
                | Some (Some msg, b') \<Rightarrow>
                    deliver fuel' body e d a (Suc index) toRemove
                      (b'\<lparr> errors := errors b' @
                          [''[EventBus] ERROR in handler for '' @ quoted e @ '': '' @ msg] \<rparr>)))
      else Some (toRemove, b))"
| "emit fuel body e d b =
     (case map_of (subscriptions b) e of
        None \<Rightarrow> Some b
      | Some a \<Rightarrow>
          if length (arrays b ! a) = 0 then Some b
          else (case deliver fuel body e d a 0 [] b of
                  None \<Rightarrow> None
                | Some (toRemove, b') \<Rightarrow> Some (foldl (\<lambda>b i. off i b) b' toRemove)))"
  by pat_completeness auto
termination
  by (relation "measures
       [\<lambda>x. case x of Inl (fuel, _) \<Rightarrow> fuel | Inr (Inl (fuel, _)) \<Rightarrow> fuel | Inr (Inr (fuel, _)) \<Rightarrow> fuel,
        \<lambda>x. case x of Inl _ \<Rightarrow> 0 | Inr (Inl _) \<Rightarrow> 1 | Inr (Inr _) \<Rightarrow> 2,
        \<lambda>x. case x of Inl (_, _, acts, _) \<Rightarrow> length acts | _ \<Rightarrow> 0]") auto

declare run.simps [simp del] deliver.simps [simp del] emit.simps [simp del]

text \<open>
  Well-formedness of the subscription map: keys are distinct, no two keys share an array,
  and every array exists. Every bus built from \<open>createEventBus\<close> with the operations of
  the interface is well-formed (\<open>wf_createEventBus\<close>, \<open>wf_addSubscription\<close>, \<open>wf_off\<close>,
  \<open>wf_clear\<close>, \<open>wf_clearAll\<close>, \<open>wf_emit\<close>).
\<close>

definition wf_bus :: "EventBus \<Rightarrow> bool" where
  "wf_bus b \<longleftrightarrow>
     distinct (map fst (subscriptions b)) \<and> distinct (map snd (subscriptions b))
     \<and> (\<forall>a \<in> snd ` set (subscriptions b). a < length (arrays b))"



section \<open>Fault-isolated state operations (state-utils.ts)\<close>

text \<open>
  The state the framework works on: the object store and the rest of the world, which
  plugin code may change, the messages written with \<open>instance.Msg\<close> by the functions of
  state-utils.ts, and \<open>trace\<close>. The trace is not a variable of the source: it records each
  call that the framework makes into plugin code (\<open>Invoke\<close>) and how the call ended
  (\<open>Return\<close>, or \<open>Raise\<close> when it threw), in order.
\<close>

datatype hook =
    HCreate | HInit | HCleanup | HGetState | HRestoreState | HBeforePlayerDamage
  | HHotReloadComplete

datatype call = Invoke string hook | Return string hook | Raise string hook

record 'x sys =
  heap :: heap
  ext :: 'x
  msgs :: "string list"
  trace :: "call list"

definition invoke :: "string \<Rightarrow> hook \<Rightarrow> ('a, 'x) meth \<Rightarrow> ('x, 'z) sys_scheme
    \<Rightarrow> 'a outcome \<times> ('x, 'z) sys_scheme" where
  "invoke n k m s =
     (case m (heap s, ext s) of
        (r, h', x') \<Rightarrow>
          (r, s\<lparr> heap := h', ext := x',
                 trace := trace s @ [Invoke n k,
                   (case r of Returned _ \<Rightarrow> Return n k | Threw _ \<Rightarrow> Raise n k)] \<rparr>))"

definition Msg :: "string \<Rightarrow> ('x, 'z) sys_scheme \<Rightarrow> ('x, 'z) sys_scheme" where
  "Msg text s = s\<lparr> msgs := msgs s @ [text] \<rparr>"

text \<open>A string between apostrophes, as the messages print plugin names.\<close>

definition squoted :: "string \<Rightarrow> string" where
  "squoted s = CHR 0x27 # s @ [CHR 0x27]"

record SafeStateResult =
  success :: bool
  data :: jsval
  error_msg :: "string option"

text \<open>\<open>createEmptyState\<close> returns \<open>{}\<close>, a new object.\<close>

definition createEmptyState :: "('x, 'z) sys_scheme \<Rightarrow> jsval \<times> ('x, 'z) sys_scheme" where
  "createEmptyState s = (VRef (length (heap s)), s\<lparr> heap := heap s @ [Obj [] []] \<rparr>)"

definition safeGetState :: "('x, 'e) Plugin \<Rightarrow> string \<Rightarrow> ('x, 'z) sys_scheme
    \<Rightarrow> SafeStateResult \<times> ('x, 'z) sys_scheme" where
  "safeGetState feature featureName s =
     (case getState feature of
        None \<Rightarrow>
          (case createEmptyState s of
             (emptyState, s1) \<Rightarrow>
               (\<lparr> success = False, data = emptyState,
                   error_msg = Some (''Feature '' @ squoted featureName @ '' has no getState method'') \<rparr>,
                s1))
      | Some getState_m \<Rightarrow>
          (case invoke featureName HGetState getState_m s of
             (Returned state, s1) \<Rightarrow>
               if state = VNull \<or> state = VUndefined
               then (case createEmptyState
                       (Msg (''[StateUtils] WARNING: Feature '' @ squoted featureName
                             @ '' returned null/undefined state'') s1) of
                       (emptyState, s2) \<Rightarrow> (\<lparr> success = True, data = emptyState, error_msg = None \<rparr>, s2))
               else if typeof state \<noteq> TObject
               then (case createEmptyState
                       (Msg (''[StateUtils] WARNING: Feature '' @ squoted featureName
                             @ '' returned non-object state: '' @ typeof_name (typeof state)) s1) of
                       (emptyState, s2) \<Rightarrow>
                         (\<lparr> success = False, data = emptyState,
                             error_msg = Some (''State must be an object, got ''
                                           @ typeof_name (typeof state)) \<rparr>, s2))
               else (\<lparr> success = True, data = state, error_msg = None \<rparr>, s1)
           | (Threw errorMsg, s1) \<Rightarrow>
               (case createEmptyState
                  (Msg (''[StateUtils] ERROR: Failed to get state for feature ''
                        @ squoted featureName @ '': '' @ errorMsg) s1) of
                  (emptyState, s2) \<Rightarrow>
                    (\<lparr> success = False, data = emptyState, error_msg = Some errorMsg \<rparr>, s2))))"

text \<open>
  The walk of \<open>validateStateShape\<close> returns for every input once the fuel exceeds the
  number of objects in the store (\<open>walk_total\<close> below); \<open>safeRestoreState\<close> runs it with
  that much, so the second branch below is never taken.
\<close>

definition validateStateShape_run :: "heap \<Rightarrow> jsval \<Rightarrow> string \<Rightarrow> ValidationResult" where
  "validateStateShape_run h state featureName =
     (case validateStateShape (Suc (length h)) h state featureName of
        Some validation \<Rightarrow> validation
      | None \<Rightarrow> \<lparr> valid = False, error = None \<rparr>)"

definition safeRestoreState :: "('x, 'e) Plugin \<Rightarrow> jsval \<Rightarrow> string \<Rightarrow> ('x, 'z) sys_scheme
    \<Rightarrow> bool \<times> ('x, 'z) sys_scheme" where
  "safeRestoreState feature state featureName s =
     (case restoreState feature of
        None \<Rightarrow>
          (False, Msg (''[StateUtils] WARNING: Feature '' @ squoted featureName
                       @ '' has no restoreState method'') s)
      | Some restoreState_m \<Rightarrow>
          if state = VUndefined \<or> state = VNull
          then (False, Msg (''[StateUtils] WARNING: No state to restore for feature ''
                            @ squoted featureName) s)
          else
            (let validation = validateStateShape_run (heap s) state featureName;
                 s1 = (if \<not> valid validation
                       then Msg (''[StateUtils] WARNING: Invalid state shape for ''
                                 @ squoted featureName @ '': ''
                                 @ (case error validation of
                                      None \<Rightarrow> ''undefined'' | Some e \<Rightarrow> e)) s
                       else s)
             in case invoke featureName HRestoreState (restoreState_m state) s1 of
                  (Returned u, s2) \<Rightarrow> (True, s2)
                | (Threw errorMsg, s2) \<Rightarrow>
                    (False, Msg (''[StateUtils] ERROR: Failed to restore state for feature ''
                                 @ squoted featureName @ '': '' @ errorMsg) s2)))"

definition safeHotReloadComplete :: "('x, 'e) Plugin \<Rightarrow> string \<Rightarrow> ('x, 'z) sys_scheme
    \<Rightarrow> bool \<times> ('x, 'z) sys_scheme" where
  "safeHotReloadComplete feature featureName s =
     (case onHotReloadComplete feature of
        Some hook_m \<Rightarrow>
          (case invoke featureName HHotReloadComplete hook_m s of
             (Returned u, s1) \<Rightarrow> (True, s1)
           | (Threw errorMsg, s1) \<Rightarrow>
               (False, Msg (''[StateUtils] ERROR: onHotReloadComplete failed for feature ''
                            @ squoted featureName @ '': '' @ errorMsg) s1))
      | None \<Rightarrow> (True, s))"


section \<open>Orchestrator (gamemode-orchestrator.ts)\<close>

text \<open>
  The orchestrator adds its two variables to the state: the ordered descriptor list and
  the map of active plugin instances. Its own console messages, the think loop and the
  event bus are left out: the calls that stop and restart the think loop and clear the
  bus act on the host only, and no property below depends on them.
\<close>

record ('x, 'e) orch = "'x sys" +
  orderedPlugins :: "('x, 'e) PluginDescriptor list"
  activePlugins :: "string \<rightharpoonup> ('x, 'e) Plugin"

definition MAX_PLAYER_SLOTS :: nat where
  "MAX_PLAYER_SLOTS = 64"

text \<open>
  \<open>forEachPluginInOrder\<close> walks the ordered descriptors, looks each name up in the map
  of active plugins and calls the callback on the instance found. The callbacks of the
  source are closures over local variables of their caller; \<open>'acc\<close> holds those. An
  exception thrown by the callback leaves the loop.
\<close>

fun forEachPluginInOrder ::
  "(('x, 'e) Plugin \<Rightarrow> string \<Rightarrow> 'acc \<Rightarrow> ('x, 'e) orch \<Rightarrow> unit outcome \<times> 'acc \<times> ('x, 'e) orch)
    \<Rightarrow> ('x, 'e) PluginDescriptor list \<Rightarrow> 'acc \<Rightarrow> ('x, 'e) orch
    \<Rightarrow> unit outcome \<times> 'acc \<times> ('x, 'e) orch" where
  "forEachPluginInOrder callback [] acc s = (Returned (), acc, s)"
| "forEachPluginInOrder callback (d # rest) acc s =
     (case activePlugins s (name d) of
        None \<Rightarrow> forEachPluginInOrder callback rest acc s
      | Some plugin \<Rightarrow>
          (case callback plugin (name d) acc s of
             (Returned u, acc1, s1) \<Rightarrow> forEachPluginInOrder callback rest acc1 s1
           | (Threw m, acc1, s1) \<Rightarrow> (Threw m, acc1, s1)))"

text \<open>\<open>plugin.init()\<close>: calling a property that is not a function throws a TypeError.\<close>

definition callInit :: "('x, 'e) Plugin \<Rightarrow> string \<Rightarrow> ('x, 'z) sys_scheme
    \<Rightarrow> unit outcome \<times> ('x, 'z) sys_scheme" where
  "callInit plugin n s =
     (case init plugin of
        None \<Rightarrow> (Threw ''TypeError: plugin.init is not a function'', s)
      | Some init_m \<Rightarrow> invoke n HInit init_m s)"

text \<open>Fresh boot: each descriptor in order is created, initialised and registered.\<close>

fun initializeEach :: "('x, 'e) PluginDescriptor list \<Rightarrow> ('x, 'e) orch
    \<Rightarrow> unit outcome \<times> ('x, 'e) orch" where
  "initializeEach [] s = (Returned (), s)"
| "initializeEach (d # rest) s =
     (case invoke (name d) HCreate (create d) s of
        (Threw m, s1) \<Rightarrow> (Threw m, s1)
      | (Returned pluginInstance, s1) \<Rightarrow>
          (case callInit pluginInstance (name d) s1 of
             (Threw m, s2) \<Rightarrow> (Threw m, s2)
           | (Returned u, s2) \<Rightarrow>
               initializeEach rest
                 (s2\<lparr> activePlugins := (activePlugins s2)(name d \<mapsto> pluginInstance) \<rparr>)))"

definition initializePlugins :: "('x, 'e) GamemodeConfig \<Rightarrow> ('x, 'e) orch
    \<Rightarrow> unit outcome \<times> ('x, 'e) orch" where
  "initializePlugins cfg s =
     (let s1 = s\<lparr> orderedPlugins := getOrderedPlugins cfg \<rparr>
      in initializeEach (orderedPlugins s1) s1)"

text \<open>\<open>createPluginInstances\<close>: the map is cleared, then each descriptor in order is created
  and registered; \<open>init\<close> is not called.\<close>

fun createEach :: "('x, 'e) PluginDescriptor list \<Rightarrow> ('x, 'e) orch
    \<Rightarrow> unit outcome \<times> ('x, 'e) orch" where
  "createEach [] s = (Returned (), s)"
| "createEach (d # rest) s =
     (case invoke (name d) HCreate (create d) s of
        (Threw m, s1) \<Rightarrow> (Threw m, s1)
      | (Returned pluginInstance, s1) \<Rightarrow>
          createEach rest
            (s1\<lparr> activePlugins := (activePlugins s1)(name d \<mapsto> pluginInstance) \<rparr>))"

definition createPluginInstances :: "('x, 'e) orch \<Rightarrow> unit outcome \<times> ('x, 'e) orch" where
  "createPluginInstances s = createEach (orderedPlugins s) (s\<lparr> activePlugins := Map.empty \<rparr>)"

subsection \<open>Hot reload: the \<open>before\<close> callback\<close>

definition cleanupCallback :: "('x, 'e) Plugin \<Rightarrow> string \<Rightarrow> unit \<Rightarrow> ('x, 'e) orch
    \<Rightarrow> unit outcome \<times> unit \<times> ('x, 'e) orch" where
  "cleanupCallback plugin n acc s =
     (case cleanup plugin of
        None \<Rightarrow> (Returned (), acc, s)
      | Some cleanup_m \<Rightarrow> (case invoke n HCleanup cleanup_m s of (r, s1) \<Rightarrow> (r, acc, s1)))"

text \<open>The local variables of the save pass: the checkpoint (\<open>state\<close> in the source) and the two counters.\<close>

record SaveVars =
  state_record :: "string \<rightharpoonup> jsval"
  savedCount :: nat
  errorCount :: nat

definition saveCallback :: "('x, 'e) Plugin \<Rightarrow> string \<Rightarrow> SaveVars \<Rightarrow> ('x, 'e) orch
    \<Rightarrow> unit outcome \<times> SaveVars \<times> ('x, 'e) orch" where
  "saveCallback plugin n acc s =
     (case safeGetState plugin n s of
        (result, s1) \<Rightarrow>
          if success result
          then (Returned (),
                acc\<lparr> state_record := (state_record acc)(n \<mapsto> data result), savedCount := savedCount acc + 1 \<rparr>,
                s1)
          else (Returned (), acc\<lparr> errorCount := errorCount acc + 1 \<rparr>, s1))"

text \<open>\<open>state = {}\<close>, \<open>savedCount = 0\<close>, \<open>errorCount = 0\<close>\<close>

definition no_vars :: SaveVars where
  "no_vars = \<lparr> state_record = Map.empty, savedCount = 0, errorCount = 0 \<rparr>"

definition saveStates :: "('x, 'e) orch \<Rightarrow> unit outcome \<times> SaveVars \<times> ('x, 'e) orch" where
  "saveStates s = forEachPluginInOrder saveCallback (orderedPlugins s) no_vars s"

definition before_reload :: "('x, 'e) orch \<Rightarrow> (string \<rightharpoonup> jsval) outcome \<times> ('x, 'e) orch" where
  "before_reload s =
     (case forEachPluginInOrder cleanupCallback (orderedPlugins s) () s of
        (Threw m, u, s1) \<Rightarrow> (Threw m, s1)
      | (Returned u, u', s1) \<Rightarrow>
          (case saveStates s1 of
             (Threw m, acc, s2) \<Rightarrow> (Threw m, s2)
           | (Returned u, acc, s2) \<Rightarrow> (Returned (state_record acc), s2)))"

subsection \<open>Hot reload: the \<open>after\<close> callback\<close>

text \<open>\<open>saved\<close> is the checkpoint handed back by the host; \<open>restoredCount\<close> is the local
  counter of the restore pass.\<close>

definition restoreCallback :: "(string \<rightharpoonup> jsval) \<Rightarrow> ('x, 'e) Plugin \<Rightarrow> string \<Rightarrow> nat
    \<Rightarrow> ('x, 'e) orch \<Rightarrow> unit outcome \<times> nat \<times> ('x, 'e) orch" where
  "restoreCallback saved plugin n restoredCount s =
     (case saved n of
        None \<Rightarrow> (Returned (), restoredCount, s)
      | Some v \<Rightarrow>
          if truthy v
          then (case safeRestoreState plugin v n s of
                  (ok, s1) \<Rightarrow> (Returned (), (if ok then restoredCount + 1 else restoredCount), s1))
          else (Returned (), restoredCount, s))"

definition initCallback :: "('x, 'e) Plugin \<Rightarrow> string \<Rightarrow> unit \<Rightarrow> ('x, 'e) orch
    \<Rightarrow> unit outcome \<times> unit \<times> ('x, 'e) orch" where
  "initCallback plugin n acc s = (case callInit plugin n s of (r, s1) \<Rightarrow> (r, acc, s1))"

definition hotReloadCallback :: "('x, 'e) Plugin \<Rightarrow> string \<Rightarrow> unit \<Rightarrow> ('x, 'e) orch
    \<Rightarrow> unit outcome \<times> unit \<times> ('x, 'e) orch" where
  "hotReloadCallback plugin n acc s =
     (case safeHotReloadComplete plugin n s of (ok, s1) \<Rightarrow> (Returned (), acc, s1))"

text \<open>
  The host is asked for the player controller of each slot: \<open>GetPlayerController x slot\<close>
  is \<open>None\<close> when the slot has no controller and \<open>Some v\<close> when it has one whose
  \<open>IsValid()\<close> is \<open>v\<close>.
\<close>

definition connectedPlayerCount :: "('x \<Rightarrow> nat \<Rightarrow> bool option) \<Rightarrow> ('x, 'z) sys_scheme \<Rightarrow> nat" where
  "connectedPlayerCount GetPlayerController s =
     length (filter (\<lambda>slot. GetPlayerController (ext s) slot = Some True) [0..<MAX_PLAYER_SLOTS])"

text \<open>
  The \<open>after\<close> callback up to the restart of the think loop: the order is recomputed,
  instances are created, state is restored where the checkpoint has a truthy entry, and
  every instance is initialised.
\<close>

definition rebuild :: "('x, 'e) GamemodeConfig \<Rightarrow> (string \<rightharpoonup> jsval) option \<Rightarrow> ('x, 'e) orch
    \<Rightarrow> unit outcome \<times> ('x, 'e) orch" where
  "rebuild cfg saved s =
     (case createPluginInstances (s\<lparr> orderedPlugins := getOrderedPlugins cfg \<rparr>) of
        (Threw m, s1) \<Rightarrow> (Threw m, s1)
      | (Returned u, s1) \<Rightarrow>
          (case (case saved of
                   None \<Rightarrow> (Returned (), 0, s1)
                 | Some st \<Rightarrow> forEachPluginInOrder (restoreCallback st) (orderedPlugins s1) 0 s1) of
             (Threw m, restoredCount, s2) \<Rightarrow> (Threw m, s2)
           | (Returned u, restoredCount, s2) \<Rightarrow>
               (case forEachPluginInOrder initCallback (orderedPlugins s2) () s2 of
                  (r, u', s3) \<Rightarrow> (r, s3))))"

text \<open>The rest of the \<open>after\<close> callback: the connected players are counted and, if there
  is one, \<open>onHotReloadComplete\<close> is called on every plugin.\<close>

definition reinitializePlayers :: "('x \<Rightarrow> nat \<Rightarrow> bool option) \<Rightarrow> ('x, 'e) orch \<Rightarrow> ('x, 'e) orch" where
  "reinitializePlayers GetPlayerController s =
     (if connectedPlayerCount GetPlayerController s > 0
      then (case forEachPluginInOrder hotReloadCallback (orderedPlugins s) () s of
              (r, u, s1) \<Rightarrow> s1)
      else s)"

definition after_reload :: "('x \<Rightarrow> nat \<Rightarrow> bool option) \<Rightarrow> ('x, 'e) GamemodeConfig
    \<Rightarrow> (string \<rightharpoonup> jsval) option \<Rightarrow> ('x, 'e) orch \<Rightarrow> unit outcome \<times> ('x, 'e) orch" where
  "after_reload GetPlayerController cfg saved s =
     (case rebuild cfg saved s of
        (Threw m, s1) \<Rightarrow> (Threw m, s1)
      | (Returned u, s1) \<Rightarrow> (Returned (), reinitializePlayers GetPlayerController s1))"

subsection \<open>Damage override (setupDamageEvents)\<close>

fun damageDispatch :: "'e \<Rightarrow> ('x, 'e) PluginDescriptor list \<Rightarrow> ('x, 'e) orch
    \<Rightarrow> jsval outcome \<times> ('x, 'e) orch" where
  "damageDispatch event [] s = (Returned VUndefined, s)"
| "damageDispatch event (d # rest) s =
     (case activePlugins s (name d) of
        None \<Rightarrow> damageDispatch event rest s
      | Some plugin \<Rightarrow>
          (case onBeforePlayerDamage plugin of
             None \<Rightarrow> damageDispatch event rest s
           | Some hook_m \<Rightarrow>
               (case invoke (name d) HBeforePlayerDamage (hook_m event) s of
                  (Threw m, s1) \<Rightarrow> (Threw m, s1)
                | (Returned result, s1) \<Rightarrow>
                    if result \<noteq> VUndefined then (Returned result, s1)
                    else damageDispatch event rest s1)))"

definition OnBeforePlayerDamage :: "'e \<Rightarrow> ('x, 'e) orch \<Rightarrow> jsval outcome \<times> ('x, 'e) orch" where
  "OnBeforePlayerDamage event s = damageDispatch event (orderedPlugins s) s"

subsection \<open>Notions for stating the dispatch properties\<close>

text \<open>
  \<open>passes event ds s s1\<close>: the plugins of \<open>ds\<close>, visited in order from state \<open>s\<close>, all
  leave the decision open, and \<open>s1\<close> is the state after the last of them. A plugin leaves
  the decision open when it is not active, has no \<open>onBeforePlayerDamage\<close> hook, or its hook
  returns \<open>undefined\<close>.
\<close>

inductive passes :: "'e \<Rightarrow> ('x, 'e) PluginDescriptor list \<Rightarrow> ('x, 'e) orch \<Rightarrow> ('x, 'e) orch \<Rightarrow> bool" where
  passes_Nil: "passes event [] s s"
| passes_inactive:
    "activePlugins s (name d) = None \<Longrightarrow> passes event rest s s1 \<Longrightarrow> passes event (d # rest) s s1"
| passes_no_hook:
    "activePlugins s (name d) = Some plugin \<Longrightarrow> onBeforePlayerDamage plugin = None \<Longrightarrow>
     passes event rest s s1 \<Longrightarrow> passes event (d # rest) s s1"
| passes_undefined:
    "activePlugins s (name d) = Some plugin \<Longrightarrow> onBeforePlayerDamage plugin = Some hook_m \<Longrightarrow>
     invoke (name d) HBeforePlayerDamage (hook_m event) s = (Returned VUndefined, s') \<Longrightarrow>
     passes event rest s' s1 \<Longrightarrow> passes event (d # rest) s s1"

text \<open>The descriptors whose hook the dispatch can call, and the names of the plugins whose
  hook a trace shows as called.\<close>

definition hooked :: "('x, 'e) orch \<Rightarrow> ('x, 'e) PluginDescriptor \<Rightarrow> bool" where
  "hooked s d =
     (case activePlugins s (name d) of
        None \<Rightarrow> False
      | Some plugin \<Rightarrow> (case onBeforePlayerDamage plugin of None \<Rightarrow> False | Some hook_m \<Rightarrow> True))"

fun invoked_names :: "hook \<Rightarrow> call list \<Rightarrow> string list" where
  "invoked_names k [] = []"
| "invoked_names k (Invoke n k' # rest) = (if k' = k then n # invoked_names k rest else invoked_names k rest)"
| "invoked_names k (c # rest) = invoked_names k rest"

text \<open>
  \<open>first_responder event ds s r s'\<close>: some plugin \<open>d\<close> of \<open>ds\<close> ended the dispatch. All plugins
  before it left the decision open, its hook was called and ended with \<open>r\<close> (a value other
  than \<open>undefined\<close>, or an exception), and \<open>s'\<close> is the state right after that call.
\<close>

definition first_responder ::
  "'e \<Rightarrow> ('x, 'e) PluginDescriptor list \<Rightarrow> ('x, 'e) orch \<Rightarrow> jsval outcome \<Rightarrow> ('x, 'e) orch \<Rightarrow> bool" where
  "first_responder event ds s r s' \<longleftrightarrow>
     (\<exists>pre d post plugin hook_m s1.
        ds = pre @ d # post \<and> passes event pre s s1
        \<and> activePlugins s1 (name d) = Some plugin
        \<and> onBeforePlayerDamage plugin = Some hook_m
        \<and> invoke (name d) HBeforePlayerDamage (hook_m event) s1 = (r, s')
        \<and> r \<noteq> Returned VUndefined)"

text \<open>The hook that a trace entry belongs to.\<close>

fun hook_of :: "call \<Rightarrow> hook" where
  "hook_of (Invoke n k) = k"
| "hook_of (Return n k) = k"
| "hook_of (Raise n k) = k"

text \<open>The registered instance of a descriptor has an \<open>onHotReloadComplete\<close> method.\<close>

definition implements_hotReload :: "('x, 'e) orch \<Rightarrow> ('x, 'e) PluginDescriptor \<Rightarrow> bool" where
  "implements_hotReload s d =
     (case activePlugins s (name d) of
        None \<Rightarrow> False
      | Some plugin \<Rightarrow> (case onHotReloadComplete plugin of None \<Rightarrow> False | Some hook_m \<Rightarrow> True))"

text \<open>All entries of a piece of trace belong to one hook.\<close>

definition only :: "hook \<Rightarrow> call list \<Rightarrow> bool" where
  "only k delta \<longleftrightarrow> (\<forall>c \<in> set delta. hook_of c = k)"

section \<open>Concrete instances\<close>





definition shared_store :: heap where
  "shared_store = [Obj [(''a'', VRef 1), (''b'', VRef 1)] [], Obj [(''n'', VNum 1)] []]"

definition children_of :: "obj \<Rightarrow> jsval list" where
  "children_of ob = (case ob of Arr items \<Rightarrow> items | Obj own inherited \<Rightarrow> map snd own)"








definition bodies_throw :: "nat \<Rightarrow> unit \<Rightarrow> unit action list" where
  "bodies_throw h d = (if h = 0 then [Throw ''boom''] else [])"

definition bus_once :: EventBus where
  "bus_once = snd (on ''x'' 1 (snd (once_sub ''x'' 0 createEventBus)))"

text \<open>A plugin that appends every restored state to the world, and a store whose only
  object holds a function.\<close>

definition keeper :: "(jsval list, unit) Plugin" where
  "keeper = \<lparr> init = Some (\<lambda>(h, x). (Returned (), h, x)), cleanup = None,
     getState = Some (\<lambda>(h, x). (Returned (VRef 0), h, x)),
     restoreState = Some (\<lambda>state (h, x). (Returned (), h, x @ [state])),
     onBeforePlayerDamage = None, onHotReloadComplete = None \<rparr>"


text \<open>Four plugins for the damage override: one without the hook, one that returns
  \<open>undefined\<close>, one that aborts and one that doubles the damage.\<close>

definition veto_store :: heap where
  "veto_store = [Obj [(''abort'', VBool True)] [], Obj [(''damage'', VNum 2)] []]"

definition hook_plugin :: "string \<Rightarrow> jsval \<Rightarrow> (string list, unit) Plugin" where
  "hook_plugin n v = \<lparr> init = Some (\<lambda>(h, x). (Returned (), h, x)), cleanup = None,
     getState = None, restoreState = None,
     onBeforePlayerDamage = Some (\<lambda>event (h, x). (Returned v, h, x @ [n])),
     onHotReloadComplete = None \<rparr>"

definition bare_plugin :: "(string list, unit) Plugin" where
  "bare_plugin = \<lparr> init = Some (\<lambda>(h, x). (Returned (), h, x)), cleanup = None,
     getState = None, restoreState = None, onBeforePlayerDamage = None,
     onHotReloadComplete = None \<rparr>"

definition dsc :: "string \<Rightarrow> int option \<Rightarrow> ('x, 'e) Plugin \<Rightarrow> ('x, 'e) PluginDescriptor" where
  "dsc n p plugin = \<lparr> name = n, create = (\<lambda>(h, x). (Returned plugin, h, x)), priority = p \<rparr>"

definition damage_orch :: "(string list, unit) orch" where
  "damage_orch = \<lparr> heap = veto_store, ext = [], msgs = [], trace = [],
     orderedPlugins = [dsc ''bare'' (Some 1) bare_plugin,
                       dsc ''quiet'' (Some 5) (hook_plugin ''quiet'' VUndefined),
                       dsc ''shield'' (Some 10) (hook_plugin ''shield'' (VRef 0)),
                       dsc ''double'' (Some 20) (hook_plugin ''double'' (VRef 1))],
     activePlugins = [''bare'' \<mapsto> bare_plugin,
                      ''quiet'' \<mapsto> hook_plugin ''quiet'' VUndefined,
                      ''shield'' \<mapsto> hook_plugin ''shield'' (VRef 0),
                      ''double'' \<mapsto> hook_plugin ''double'' (VRef 1)] \<rparr>"



text \<open>A reload cycle: two plugins, one of which implements \<open>onHotReloadComplete\<close>; a
  checkpoint with an entry for the other; a host with one connected player and one with
  none. \<open>rebuilt_orch\<close> is the state that the rebuild reaches from \<open>boot_orch\<close>.\<close>

definition reacquirer :: "(jsval list, unit) Plugin" where
  "reacquirer = \<lparr> init = Some (\<lambda>(h, x). (Returned (), h, x @ [VStr ''init''])), cleanup = None,
     getState = Some (\<lambda>(h, x). (Returned (VRef 0), h, x)),
     restoreState = Some (\<lambda>st (h, x). (Returned (), h, x @ [st])),
     onBeforePlayerDamage = None,
     onHotReloadComplete = Some (\<lambda>(h, x). (Returned (), h, x @ [VStr ''reacquired''])) \<rparr>"

definition cfg_reload :: "(jsval list, unit) GamemodeConfig" where
  "cfg_reload = \<lparr> plugins = [dsc ''keeper'' None keeper, dsc ''reacquirer'' (Some 10) reacquirer],
     enabledPlugins = None \<rparr>"

definition boot_orch :: "(jsval list, unit) orch" where
  "boot_orch = \<lparr> heap = [Obj [(''score'', VNum 7)] []], ext = [], msgs = [], trace = [],
     orderedPlugins = [], activePlugins = Map.empty \<rparr>"

definition one_player :: "jsval list \<Rightarrow> nat \<Rightarrow> bool option" where
  "one_player x slot = (if slot = 3 then Some True else if slot = 4 then Some False else None)"

definition no_players :: "jsval list \<Rightarrow> nat \<Rightarrow> bool option" where
  "no_players x slot = (if slot = 4 then Some False else None)"

definition saved_keeper :: "(string \<rightharpoonup> jsval) option" where
  "saved_keeper = Some [''keeper'' \<mapsto> VRef 0]"

definition rebuilt_orch :: "(jsval list, unit) orch" where
  "rebuilt_orch = boot_orch\<lparr>
     ext := [VRef 0, VStr ''init''],
     msgs := [],
     trace := [Invoke ''reacquirer'' HCreate, Return ''reacquirer'' HCreate,
               Invoke ''keeper'' HCreate, Return ''keeper'' HCreate,
               Invoke ''keeper'' HRestoreState, Return ''keeper'' HRestoreState,
               Invoke ''reacquirer'' HInit, Return ''reacquirer'' HInit,
               Invoke ''keeper'' HInit, Return ''keeper'' HInit],
     orderedPlugins := [dsc ''reacquirer'' (Some 10) reacquirer, dsc ''keeper'' None keeper],
     activePlugins := [''reacquirer'' \<mapsto> reacquirer, ''keeper'' \<mapsto> keeper] \<rparr>"

section \<open>Properties of the ordering\<close>

lemma sort_insert_mset: "mset (sort_insert cmp x xs) = add_mset x (mset xs)"
  by (induction xs) auto

lemma array_sort_mset: "mset (array_sort cmp xs) = mset xs"
  by (induction xs) (auto simp: sort_insert_mset)






section \<open>Properties of the state validation\<close>







text \<open>
  C7. The claim says that a state without functions, reference cycles and live handles has
  no violations. The code keeps every object it has entered in \<open>seen\<close> and never takes
  one out, so an object that is merely reachable twice is reported as a circular reference.
  In \<open>shared_store\<close> the properties \<open>a\<close> and \<open>b\<close> of the state hold the same object: every
  reference of the store points to a larger address (there is no cycle), no value is a
  function and no object has an \<open>IsValid\<close> method, and yet validation fails.
\<close>

theorem validateStateShape_flags_shared_object:
  "validateStateShape 3 shared_store (VRef 0) ''p'' =
     Some \<lparr> valid = False, error = Some ''Circular reference at state.b'' \<rparr>
   \<and> list_all (\<lambda>a. list_all (\<lambda>v. case v of VRef b \<Rightarrow> a < b | VFun f \<Rightarrow> False | _ \<Rightarrow> True)
                     (children_of (deref shared_store a))
                 \<and> \<not> isEntityLike (deref shared_store a)) [0, 1]"
  by (simp add: shared_store_def validateStateShape_def Let_def checkValue.simps deref_def isEntityLike_def
      eval_nat_numeral children_of_def)

section \<open>Properties of the event bus\<close>




lemma findIndex_None:
  "findIndex P xs = None \<longleftrightarrow> (\<forall>x \<in> set xs. \<not> P x)"
  by (induction xs) auto
















lemma bus_once_eq:
  "bus_once = \<lparr> subscriptions = [(''x'', 0)],
      arrays = [[\<lparr> subId = 1, eventName = ''x'', handler = 0, once = True \<rparr>,
                 \<lparr> subId = 2, eventName = ''x'', handler = 1, once = False \<rparr>]],
      nextId = 3, invoked = [], errors = [] \<rparr>"
  by (simp add: bus_once_def on_def once_sub_def addSubscription_def createEventBus_def Let_def)

text \<open>
  C8. The id of a \<open>once\<close> subscription is pushed to \<open>toRemove\<close> inside the \<open>try\<close> block,
  after the call of the handler, so a \<open>once\<close> handler that throws is never removed. In
  \<open>bus_once\<close> subscription 1 is a \<open>once\<close> subscription whose handler throws and subscription
  2 is persistent: after the first \<open>emit\<close> both are still subscribed, and a second \<open>emit\<close>
  invokes the \<open>once\<close> handler again.
\<close>

theorem once_handler_that_throws_stays:
  "map_option (\<lambda>b. map once (subscribers b ''x'')) (emit 2 bodies_throw ''x'' () bus_once)
     = Some [True, False]
   \<and> map_option invoked
        (Option.bind (emit 2 bodies_throw ''x'' () bus_once) (emit 2 bodies_throw ''x'' ()))
     = Some [1, 2, 1, 2]"
  by (simp add: bus_once_eq subscribers_def emit.simps deliver.simps run.simps
      bodies_throw_def off_def splice1_def Let_def)

text \<open>Every bus reached through the interface is well-formed.\<close>

lemma wf_createEventBus: "wf_bus createEventBus"
  by (simp add: wf_bus_def createEventBus_def)

lemma wf_addSubscription: "wf_bus b \<Longrightarrow> wf_bus (snd (addSubscription e h onc b))"
proof (cases "map_of (subscriptions b) e")
  case None
  assume wf: "wf_bus b"
  from None have "e \<notin> fst ` set (subscriptions b)"
    by (simp add: map_of_eq_None_iff)
  moreover have "length (arrays b) \<notin> snd ` set (subscriptions b)"
    using wf by (auto simp: wf_bus_def)
  ultimately show ?thesis
    using None wf by (auto simp: addSubscription_def Let_def wf_bus_def less_Suc_eq)
next
  case (Some a)
  assume "wf_bus b"
  with Some show ?thesis
    by (auto simp: addSubscription_def Let_def wf_bus_def)
qed

lemma wf_on: "wf_bus b \<Longrightarrow> wf_bus (snd (on e h b))"
  unfolding on_def by (rule wf_addSubscription)

lemma wf_once_sub: "wf_bus b \<Longrightarrow> wf_bus (snd (once_sub e h b))"
  unfolding once_sub_def by (rule wf_addSubscription)

lemma wf_drop_key:
  "wf_bus b \<Longrightarrow> wf_bus (b\<lparr> subscriptions := filter (\<lambda>(k', _). k' \<noteq> k) (subscriptions b) \<rparr>)"
  by (auto simp: wf_bus_def distinct_map_filter)

lemma wf_off_entries: "wf_bus b \<Longrightarrow> wf_bus (off_entries ents i b)"
proof (induction ents)
  case Nil
  then show ?case by simp
next
  case (Cons ent rest)
  obtain k a where ent: "ent = (k, a)" by (cases ent)
  show ?case
  proof (cases "findIndex (\<lambda>s. subId s = i) (arrays b ! a)")
    case None
    with Cons ent show ?thesis by simp
  next
    case (Some index)
    from Cons.prems have "wf_bus (b\<lparr> arrays := (arrays b)[a := splice1 index (arrays b ! a)] \<rparr>)"
      by (simp add: wf_bus_def)
    from wf_drop_key [OF this] this show ?thesis
      using Some ent by (simp add: Let_def)
  qed
qed

lemma wf_off: "wf_bus b \<Longrightarrow> wf_bus (off i b)"
  unfolding off_def by (rule wf_off_entries)

lemma wf_clear: "wf_bus b \<Longrightarrow> wf_bus (clear e b)"
  unfolding clear_def by (rule wf_drop_key)

lemma wf_clearAll: "wf_bus b \<Longrightarrow> wf_bus (clearAll b)"
  by (simp add: wf_bus_def clearAll_def)

lemma wf_foldl_off: "wf_bus b \<Longrightarrow> wf_bus (foldl (\<lambda>b i. off i b) b ids)"
  by (induction ids arbitrary: b) (simp_all add: wf_off)

lemma wf_emit:
  "wf_bus b \<Longrightarrow> run fuel body acts b = Some (r, b') \<Longrightarrow> wf_bus b'"
  "wf_bus b \<Longrightarrow> deliver fuel body e d a index toRemove b = Some (tr, b') \<Longrightarrow> wf_bus b'"
  "wf_bus b \<Longrightarrow> emit fuel body e d b = Some b' \<Longrightarrow> wf_bus b'"
proof (induction fuel body acts b and fuel body e d a index toRemove b and fuel body e d b
    arbitrary: r b' and tr b' and b' rule: run_deliver_emit.induct)
  case (1 fuel body b)
  then show ?case by (simp add: run.simps)
next
  case (2 fuel body act rest b)
  show ?case
  proof (cases act)
    case (On e h)
    from "2.IH"(1) [OF On wf_on [OF "2.prems"(1)]] "2.prems"(2) On
    show ?thesis by (simp add: run.simps)
  next
    case (Once e h)
    from "2.IH"(2) [OF Once wf_once_sub [OF "2.prems"(1)]] "2.prems"(2) Once
    show ?thesis by (simp add: run.simps)
  next
    case (Off i)
    from "2.IH"(3) [OF Off wf_off [OF "2.prems"(1)]] "2.prems"(2) Off
    show ?thesis by (simp add: run.simps)
  next
    case (Emit e d)
    from "2.prems"(2) Emit obtain fuel' b1 where
      fuel: "fuel = Suc fuel'" and em: "emit fuel' body e d b = Some b1"
      and rest: "run fuel body rest b1 = Some (r, b')"
      by (auto simp: run.simps split: nat.splits option.splits)
    from "2.IH"(4) [OF Emit fuel "2.prems"(1) em] have "wf_bus b1" .
    from "2.IH"(5) [OF Emit fuel em this rest] show ?thesis .
  next
    case (Clear e)
    from "2.IH"(6) [OF Clear wf_clear [OF "2.prems"(1)]] "2.prems"(2) Clear
    show ?thesis by (simp add: run.simps)
  next
    case ClearAll
    from "2.IH"(7) [OF ClearAll wf_clearAll [OF "2.prems"(1)]] "2.prems"(2) ClearAll
    show ?thesis by (simp add: run.simps)
  next
    case (Throw msg)
    with "2.prems" show ?thesis by (simp add: run.simps)
  qed
next
  case (3 fuel body e d a index toRemove b)
  show ?case
  proof (cases "index < length (arrays b ! a)")
    case False
    with "3.prems" show ?thesis by (simp add: deliver.simps)
  next
    case True
    with "3.prems"(2) obtain fuel' where fuel: "fuel = Suc fuel'"
      by (cases fuel) (auto simp: deliver.simps)
    define sub where "sub = arrays b ! a ! index"
    define b0 where "b0 = b\<lparr> invoked := invoked b @ [subId sub] \<rparr>"
    from "3.prems"(1) have wf0: "wf_bus b0" by (simp add: wf_bus_def b0_def)
    from "3.prems"(2) True fuel obtain r1 b1 where
      run: "run fuel' body (body (handler sub) d) b0 = Some (r1, b1)"
      by (auto simp: deliver.simps Let_def sub_def b0_def split: option.splits)
    from "3.IH"(1) [OF True fuel sub_def wf0 [unfolded b0_def] run [unfolded b0_def]]
    have wf1: "wf_bus b1" .
    show ?thesis
    proof (cases r1)
      case None
      from "3.prems"(2) True fuel run None have
        "deliver fuel' body e d a (Suc index)
           (if once sub then toRemove @ [subId sub] else toRemove) b1 = Some (tr, b')"
        by (simp add: deliver.simps Let_def sub_def [symmetric] b0_def [symmetric])
      from "3.IH"(2) [OF True fuel sub_def run [unfolded b0_def] refl None wf1 this]
      show ?thesis .
    next
      case (Some msg)
      define b2 where "b2 = b1\<lparr> errors := errors b1 @
          [''[EventBus] ERROR in handler for '' @ quoted e @ '': '' @ msg] \<rparr>"
      from wf1 have wf2: "wf_bus b2" by (simp add: wf_bus_def b2_def)
      from "3.prems"(2) True fuel run Some have
        "deliver fuel' body e d a (Suc index) toRemove b2 = Some (tr, b')"
        by (simp add: deliver.simps Let_def sub_def [symmetric] b0_def [symmetric] b2_def)
      from "3.IH"(3) [OF True fuel sub_def run [unfolded b0_def] refl Some wf2 [unfolded b2_def]
          this [unfolded b2_def]]
      show ?thesis .
    qed
  qed
next
  case (4 fuel body e d b)
  show ?case
  proof (cases "map_of (subscriptions b) e")
    case None
    with "4.prems" show ?thesis by (simp add: emit.simps)
  next
    case (Some a)
    show ?thesis
    proof (cases "length (arrays b ! a) = 0")
      case True
      with "4.prems" Some show ?thesis by (simp add: emit.simps)
    next
      case False
      with "4.prems"(2) Some obtain tr b1 where
        del: "deliver fuel body e d a 0 [] b = Some (tr, b1)"
        and b': "b' = foldl (\<lambda>b i. off i b) b1 tr"
        by (auto simp: emit.simps split: option.splits)
      from "4.IH" [OF Some False "4.prems"(1) del] have "wf_bus b1" .
      with b' show ?thesis by (simp add: wf_foldl_off)
    qed
  qed
qed

section \<open>Properties of the state operations\<close>




section \<open>Properties of the damage override\<close>

lemma invoked_names_append [simp]:
  "invoked_names k (xs @ ys) = invoked_names k xs @ invoked_names k ys"
  by (induction k xs rule: invoked_names.induct) auto

lemma invoke_keeps_plugins:
  "invoke n k m s = (r, s') \<Longrightarrow>
     activePlugins s' = activePlugins s \<and> orderedPlugins s' = orderedPlugins s"
  by (auto simp: invoke_def split: prod.splits)

lemma invoke_trace:
  "invoke n k m s = (r, s') \<Longrightarrow>
     trace s' = trace s @ [Invoke n k, (case r of Returned u \<Rightarrow> Return n k | Threw e \<Rightarrow> Raise n k)]"
  by (auto simp: invoke_def split: prod.splits)

lemma passes_dispatch:
  "passes event ds s s1 \<Longrightarrow> damageDispatch event (ds @ rest) s = damageDispatch event rest s1"
  by (induction rule: passes.induct) auto

lemma passes_append:
  "passes event xs s s1 \<Longrightarrow> passes event ys s1 s2 \<Longrightarrow> passes event (xs @ ys) s s2"
  by (induction rule: passes.induct) (auto intro: passes.intros)

lemma first_responder_Cons:
  assumes "passes event [d] s s0" "first_responder event ds s0 r s'"
  shows "first_responder event (d # ds) s r s'"
proof -
  from assms(2) obtain pre d' post plugin hook_m s1 where
    ds: "ds = pre @ d' # post" and p: "passes event pre s0 s1"
    and rest: "activePlugins s1 (name d') = Some plugin" "onBeforePlayerDamage plugin = Some hook_m"
      "invoke (name d') HBeforePlayerDamage (hook_m event) s1 = (r, s')" "r \<noteq> Returned VUndefined"
    unfolding first_responder_def by blast
  from passes_append [OF assms(1) p] have "passes event (d # pre) s s1" by simp
  moreover from ds have "d # ds = (d # pre) @ d' # post" by simp
  ultimately show ?thesis
    unfolding first_responder_def using rest by blast
qed

lemma first_responder_here:
  assumes "activePlugins s (name d) = Some plugin" "onBeforePlayerDamage plugin = Some hook_m"
    "invoke (name d) HBeforePlayerDamage (hook_m event) s = (r, s')" "r \<noteq> Returned VUndefined"
  shows "first_responder event (d # ds) s r s'"
  unfolding first_responder_def
  using assms passes_Nil [of event s] by (metis append_Nil)

lemma dispatch_shape:
  "damageDispatch event ds s = (r, s') \<Longrightarrow>
     (r = Returned VUndefined \<and> passes event ds s s') \<or> first_responder event ds s r s'"
proof (induction ds arbitrary: s)
  case Nil
  then show ?case by (auto intro: passes.intros)
next
  case (Cons d ds)
  show ?case
  proof (cases "activePlugins s (name d)")
    case None
    then have one: "passes event [d] s s" by (auto intro: passes.intros)
    from None Cons.prems have "damageDispatch event ds s = (r, s')" by simp
    from Cons.IH [OF this] show ?thesis
      using passes_append [OF one] first_responder_Cons [OF one] by auto
  next
    case (Some plugin)
    show ?thesis
    proof (cases "onBeforePlayerDamage plugin")
      case None
      with Some have one: "passes event [d] s s" by (auto intro: passes.intros)
      from None Some Cons.prems have "damageDispatch event ds s = (r, s')" by simp
      from Cons.IH [OF this] show ?thesis
        using passes_append [OF one] first_responder_Cons [OF one] by auto
    next
      case hk: (Some hook_m)
      obtain r0 s0 where inv: "invoke (name d) HBeforePlayerDamage (hook_m event) s = (r0, s0)"
        by (cases "invoke (name d) HBeforePlayerDamage (hook_m event) s")
      show ?thesis
      proof (cases "r0 = Returned VUndefined")
        case True
        with Some hk inv have one: "passes event [d] s s0" by (auto intro: passes.intros)
        from True Some hk inv Cons.prems have "damageDispatch event ds s0 = (r, s')" by simp
        from Cons.IH [OF this] show ?thesis
          using passes_append [OF one] first_responder_Cons [OF one] by auto
      next
        case False
        with Some hk inv Cons.prems have "r = r0" "s' = s0"
          by (auto split: outcome.splits if_splits)
        with first_responder_here [OF Some hk inv False] show ?thesis by simp
      qed
    qed
  qed
qed

lemma passes_calls:
  "passes event ds s s1 \<Longrightarrow>
     activePlugins s1 = activePlugins s
     \<and> invoked_names HBeforePlayerDamage (trace s1)
         = invoked_names HBeforePlayerDamage (trace s) @ map name (filter (hooked s) ds)"
proof (induction rule: passes.induct)
  case (passes_undefined s d plugin hook_m event s' rest s1)
  from invoke_keeps_plugins [OF passes_undefined(3)] invoke_trace [OF passes_undefined(3)]
  have "activePlugins s' = activePlugins s"
    "invoked_names HBeforePlayerDamage (trace s')
       = invoked_names HBeforePlayerDamage (trace s) @ [name d]"
    by simp_all
  moreover from this(1) have "hooked s' = hooked s" by (simp add: hooked_def fun_eq_iff)
  ultimately show ?case
    using passes_undefined by (simp add: hooked_def)
qed (simp_all add: hooked_def)

text \<open>
  C4. The damage override visits the plugins in the order of the ordered list.
  \<^item> When the plugins before \<open>d\<close> all leave the decision open and the hook of \<open>d\<close> returns
    a value \<open>v\<close> other than \<open>undefined\<close>, the dispatch returns \<open>v\<close> in the state right after
    that call, whatever plugins follow \<open>d\<close>: the hooks called are those of the plugins
    before \<open>d\<close> that have one, in list order, then that of \<open>d\<close>, and no later one.
  \<^item> When every plugin leaves the decision open, the result is \<open>undefined\<close> and every hook
    was called, in list order.
  \<^item> A result other than \<open>undefined\<close> is always the value returned by the first hook that
    did not return \<open>undefined\<close>.
\<close>

theorem damage_override_first_responder_wins:
  "(orderedPlugins s = pre @ d # post \<and> passes event pre s s1
      \<and> activePlugins s1 (name d) = Some plugin \<and> onBeforePlayerDamage plugin = Some hook_m
      \<and> invoke (name d) HBeforePlayerDamage (hook_m event) s1 = (Returned v, s2)
      \<and> v \<noteq> VUndefined
    \<longrightarrow> OnBeforePlayerDamage event s = (Returned v, s2)
        \<and> invoked_names HBeforePlayerDamage (trace s2)
            = invoked_names HBeforePlayerDamage (trace s) @ map name (filter (hooked s) pre) @ [name d])
   \<and> (passes event (orderedPlugins s) s s1
    \<longrightarrow> OnBeforePlayerDamage event s = (Returned VUndefined, s1)
        \<and> invoked_names HBeforePlayerDamage (trace s1)
            = invoked_names HBeforePlayerDamage (trace s) @ map name (filter (hooked s) (orderedPlugins s)))
   \<and> (OnBeforePlayerDamage event s = (Returned r, s') \<and> r \<noteq> VUndefined
    \<longrightarrow> first_responder event (orderedPlugins s) s (Returned r) s')"
proof (intro conjI impI)
  assume a: "orderedPlugins s = pre @ d # post \<and> passes event pre s s1
      \<and> activePlugins s1 (name d) = Some plugin \<and> onBeforePlayerDamage plugin = Some hook_m
      \<and> invoke (name d) HBeforePlayerDamage (hook_m event) s1 = (Returned v, s2)
      \<and> v \<noteq> VUndefined"
  then have p: "passes event pre s s1" by simp
  from passes_dispatch [OF p, of "d # post"] a
  show "OnBeforePlayerDamage event s = (Returned v, s2)"
    by (simp add: OnBeforePlayerDamage_def)
  from a have "invoke (name d) HBeforePlayerDamage (hook_m event) s1 = (Returned v, s2)" by simp
  from invoke_trace [OF this] passes_calls [OF p]
  show "invoked_names HBeforePlayerDamage (trace s2)
      = invoked_names HBeforePlayerDamage (trace s) @ map name (filter (hooked s) pre) @ [name d]"
    by simp
next
  assume p: "passes event (orderedPlugins s) s s1"
  from passes_dispatch [OF p, of "[]"]
  show "OnBeforePlayerDamage event s = (Returned VUndefined, s1)"
    by (simp add: OnBeforePlayerDamage_def)
  from passes_calls [OF p]
  show "invoked_names HBeforePlayerDamage (trace s1)
      = invoked_names HBeforePlayerDamage (trace s) @ map name (filter (hooked s) (orderedPlugins s))"
    by simp
next
  assume "OnBeforePlayerDamage event s = (Returned r, s') \<and> r \<noteq> VUndefined"
  then have "damageDispatch event (orderedPlugins s) s = (Returned r, s')" "r \<noteq> VUndefined"
    by (simp_all add: OnBeforePlayerDamage_def)
  with dispatch_shape [OF this(1)]
  show "first_responder event (orderedPlugins s) s (Returned r) s'" by simp
qed

theorem damage_override_first_responder_wins_witness:
  "OnBeforePlayerDamage () damage_orch
     = (Returned (VRef 0),
        damage_orch\<lparr> ext := [''quiet'', ''shield''],
          trace := [Invoke ''quiet'' HBeforePlayerDamage, Return ''quiet'' HBeforePlayerDamage,
                    Invoke ''shield'' HBeforePlayerDamage, Return ''shield'' HBeforePlayerDamage] \<rparr>)
   \<and> map name (orderedPlugins damage_orch) = [''bare'', ''quiet'', ''shield'', ''double'']"
proof -
  define s1 where "s1 = damage_orch\<lparr> ext := [''quiet''],
      trace := [Invoke ''quiet'' HBeforePlayerDamage, Return ''quiet'' HBeforePlayerDamage] \<rparr>"
  define s2 where "s2 = damage_orch\<lparr> ext := [''quiet'', ''shield''],
      trace := [Invoke ''quiet'' HBeforePlayerDamage, Return ''quiet'' HBeforePlayerDamage,
                Invoke ''shield'' HBeforePlayerDamage, Return ''shield'' HBeforePlayerDamage] \<rparr>"
  have ord: "orderedPlugins damage_orch
      = [dsc ''bare'' (Some 1) bare_plugin, dsc ''quiet'' (Some 5) (hook_plugin ''quiet'' VUndefined)]
        @ dsc ''shield'' (Some 10) (hook_plugin ''shield'' (VRef 0))
        # [dsc ''double'' (Some 20) (hook_plugin ''double'' (VRef 1))]"
    by (simp add: damage_orch_def)
  have q: "invoke ''quiet'' HBeforePlayerDamage
      (\<lambda>(h, x). (Returned VUndefined, h, x @ [''quiet''])) damage_orch = (Returned VUndefined, s1)"
    by (simp add: invoke_def damage_orch_def s1_def)
  have p: "passes ()
      [dsc ''bare'' (Some 1) bare_plugin, dsc ''quiet'' (Some 5) (hook_plugin ''quiet'' VUndefined)]
      damage_orch s1"
    apply (rule passes_no_hook [where plugin = bare_plugin])
      apply (simp add: damage_orch_def dsc_def)
     apply (simp add: bare_plugin_def)
    apply (rule passes_undefined [where plugin = "hook_plugin ''quiet'' VUndefined" and s' = s1])
       apply (simp add: damage_orch_def dsc_def)
      apply (simp add: hook_plugin_def)
     apply (simp add: dsc_def q)
    apply (rule passes_Nil)
    done
  have act: "activePlugins s1 (name (dsc ''shield'' (Some 10) (hook_plugin ''shield'' (VRef 0))))
      = Some (hook_plugin ''shield'' (VRef 0))"
    by (simp add: s1_def damage_orch_def dsc_def)
  have hk: "onBeforePlayerDamage (hook_plugin ''shield'' (VRef 0))
      = Some (\<lambda>event (h, x). (Returned (VRef 0), h, x @ [''shield'']))"
    by (simp add: hook_plugin_def)
  have inv: "invoke (name (dsc ''shield'' (Some 10) (hook_plugin ''shield'' (VRef 0))))
      HBeforePlayerDamage ((\<lambda>event (h, x). (Returned (VRef 0), h, x @ [''shield''])) ()) s1
      = (Returned (VRef 0), s2)"
    by (simp add: invoke_def s1_def s2_def dsc_def)
  from damage_override_first_responder_wins [of damage_orch
      "[dsc ''bare'' (Some 1) bare_plugin, dsc ''quiet'' (Some 5) (hook_plugin ''quiet'' VUndefined)]"
      "dsc ''shield'' (Some 10) (hook_plugin ''shield'' (VRef 0))"
      "[dsc ''double'' (Some 20) (hook_plugin ''double'' (VRef 1))]"
      "()" s1 "hook_plugin ''shield'' (VRef 0)"
      "\<lambda>event (h, x). (Returned (VRef 0), h, x @ [''shield''])" "VRef 0" s2]
    ord p act hk inv
  have "OnBeforePlayerDamage () damage_orch = (Returned (VRef 0), s2)" by simp
  then show ?thesis
    by (simp add: s2_def) (simp add: damage_orch_def dsc_def)
qed

section \<open>Properties of the checkpoint save pass\<close>








section \<open>Properties of the boot paths\<close>

lemma only_simps [simp]:
  "only k []" "only k (xs @ ys) \<longleftrightarrow> only k xs \<and> only k ys"
  "only k (c # xs) \<longleftrightarrow> hook_of c = k \<and> only k xs"
  by (auto simp: only_def)

lemma invoke_only:
  "invoke n k m s = (r, s') \<Longrightarrow>
     activePlugins s' = activePlugins s \<and> orderedPlugins s' = orderedPlugins s
     \<and> (\<exists>delta. trace s' = trace s @ delta \<and> only k delta)"
  by (auto simp: invoke_def split: prod.splits outcome.splits)

lemma Msg_keeps [simp]:
  "trace (Msg t s) = trace s" "activePlugins (Msg t s) = activePlugins s"
  "orderedPlugins (Msg t s) = orderedPlugins s" "heap (Msg t s) = heap s" "ext (Msg t s) = ext s"
  by (simp_all add: Msg_def)

lemma forEach_only:
  assumes step: "\<And>plugin n acc s r acc1 s1. cb plugin n acc s = (r, acc1, s1) \<Longrightarrow>
      activePlugins s1 = activePlugins s \<and> orderedPlugins s1 = orderedPlugins s
      \<and> (\<exists>delta. trace s1 = trace s @ delta \<and> only k delta)"
  shows "forEachPluginInOrder cb ds acc s = (r, acc1, s1) \<Longrightarrow>
      activePlugins s1 = activePlugins s \<and> orderedPlugins s1 = orderedPlugins s
      \<and> (\<exists>delta. trace s1 = trace s @ delta \<and> only k delta)"
proof (induction ds arbitrary: acc s)
  case Nil
  then show ?case by simp
next
  case (Cons d ds)
  show ?case
  proof (cases "activePlugins s (name d)")
    case None
    with Cons show ?thesis by simp
  next
    case (Some plugin)
    obtain r0 acc0 s0 where cb: "cb plugin (name d) acc s = (r0, acc0, s0)"
      by (cases "cb plugin (name d) acc s")
    from step [OF cb] obtain delta0 where
      a0: "activePlugins s0 = activePlugins s" "orderedPlugins s0 = orderedPlugins s"
      and t0: "trace s0 = trace s @ delta0"
      and o0: "only k delta0"
      by blast
    show ?thesis
    proof (cases r0)
      case (Returned u)
      with Some cb Cons.prems have "forEachPluginInOrder cb ds acc0 s0 = (r, acc1, s1)" by simp
      from Cons.IH [OF this] a0 t0 o0 show ?thesis by auto
    next
      case (Threw m)
      with Some cb Cons.prems a0 t0 o0 show ?thesis by auto
    qed
  qed
qed

lemma safeRestoreState_only:
  assumes "safeRestoreState plugin v n s = (ok, s1)"
  shows "activePlugins s1 = activePlugins s \<and> orderedPlugins s1 = orderedPlugins s
     \<and> (\<exists>delta. trace s1 = trace s @ delta \<and> only HRestoreState delta)"
proof (cases "restoreState plugin")
  case None
  with assms show ?thesis by (auto simp: safeRestoreState_def)
next
  case (Some restoreState_m)
  show ?thesis
  proof (cases "v = VUndefined \<or> v = VNull")
    case True
    with Some assms show ?thesis by (auto simp: safeRestoreState_def)
  next
    case False
    define s0 where "s0 =
      (if \<not> valid (validateStateShape_run (heap s) v n)
       then Msg (''[StateUtils] WARNING: Invalid state shape for '' @ squoted n @ '': ''
                 @ (case error (validateStateShape_run (heap s) v n) of
                      None \<Rightarrow> ''undefined'' | Some e \<Rightarrow> e)) s
       else s)"
    have s0: "trace s0 = trace s" "activePlugins s0 = activePlugins s"
      "orderedPlugins s0 = orderedPlugins s"
      by (simp_all add: s0_def)
    obtain r2 s2 where inv: "invoke n HRestoreState (restoreState_m v) s0 = (r2, s2)"
      by (cases "invoke n HRestoreState (restoreState_m v) s0")
    from invoke_only [OF inv] s0 obtain delta where
      d: "activePlugins s2 = activePlugins s" "orderedPlugins s2 = orderedPlugins s"
        "trace s2 = trace s @ delta" "only HRestoreState delta"
      by auto
    from assms Some False inv have "s1 = s2 \<or> (\<exists>t. s1 = Msg t s2)"
      by (auto simp: safeRestoreState_def Let_def s0_def [symmetric] split: outcome.splits)
    with d show ?thesis by auto
  qed
qed

lemma restoreCallback_only:
  assumes "restoreCallback st plugin n acc s = (r, acc1, s1)"
  shows "activePlugins s1 = activePlugins s \<and> orderedPlugins s1 = orderedPlugins s
     \<and> (\<exists>delta. trace s1 = trace s @ delta \<and> only HRestoreState delta)"
proof (cases "st n")
  case None
  with assms show ?thesis by (simp add: restoreCallback_def)
next
  case (Some v)
  show ?thesis
  proof (cases "truthy v")
    case False
    with Some assms show ?thesis by (simp add: restoreCallback_def)
  next
    case True
    obtain ok s2 where sr: "safeRestoreState plugin v n s = (ok, s2)"
      by (cases "safeRestoreState plugin v n s")
    with Some True assms have "s1 = s2" by (simp add: restoreCallback_def)
    with safeRestoreState_only [OF sr] show ?thesis by simp
  qed
qed

lemma callInit_only:
  assumes "callInit plugin n s = (r, s1)"
  shows "activePlugins s1 = activePlugins s \<and> orderedPlugins s1 = orderedPlugins s
     \<and> (\<exists>delta. trace s1 = trace s @ delta \<and> only HInit delta)"
proof (cases "init plugin")
  case None
  with assms show ?thesis by (simp add: callInit_def)
next
  case (Some init_m)
  with assms have "invoke n HInit init_m s = (r, s1)" by (simp add: callInit_def)
  from invoke_only [OF this] show ?thesis by simp
qed

lemma initCallback_only:
  assumes "initCallback plugin n acc s = (r, acc1, s1)"
  shows "activePlugins s1 = activePlugins s \<and> orderedPlugins s1 = orderedPlugins s
     \<and> (\<exists>delta. trace s1 = trace s @ delta \<and> only HInit delta)"
proof -
  from assms have "callInit plugin n s = (r, s1)"
    by (simp add: initCallback_def split: prod.splits)
  from callInit_only [OF this] show ?thesis .
qed

lemma hotReloadCallback_only:
  assumes "hotReloadCallback plugin n acc s = (r, acc1, s1)"
  shows "activePlugins s1 = activePlugins s \<and> orderedPlugins s1 = orderedPlugins s
     \<and> (\<exists>delta. trace s1 = trace s @ delta \<and> only HHotReloadComplete delta)"
proof (cases "onHotReloadComplete plugin")
  case None
  with assms show ?thesis
    by (simp add: hotReloadCallback_def safeHotReloadComplete_def)
next
  case (Some hook_m)
  obtain r2 s2 where inv: "invoke n HHotReloadComplete hook_m s = (r2, s2)"
    by (cases "invoke n HHotReloadComplete hook_m s")
  with Some assms have "s1 = s2 \<or> (\<exists>t. s1 = Msg t s2)"
    by (auto simp: hotReloadCallback_def safeHotReloadComplete_def split: outcome.splits)
  with invoke_only [OF inv] show ?thesis by auto
qed

lemma restore_pass_only:
  assumes "forEachPluginInOrder (restoreCallback st) ds acc s = (r, acc1, s1)"
  shows "activePlugins s1 = activePlugins s \<and> orderedPlugins s1 = orderedPlugins s
     \<and> (\<exists>delta. trace s1 = trace s @ delta \<and> only HRestoreState delta)"
  by (rule forEach_only [where cb = "restoreCallback st", OF _ assms]) (erule restoreCallback_only)

lemma init_pass_only:
  assumes "forEachPluginInOrder initCallback ds acc s = (r, acc1, s1)"
  shows "activePlugins s1 = activePlugins s \<and> orderedPlugins s1 = orderedPlugins s
     \<and> (\<exists>delta. trace s1 = trace s @ delta \<and> only HInit delta)"
  by (rule forEach_only [where cb = initCallback, OF _ assms]) (erule initCallback_only)

lemma hotReload_pass_only:
  assumes "forEachPluginInOrder hotReloadCallback ds acc s = (r, acc1, s1)"
  shows "activePlugins s1 = activePlugins s \<and> orderedPlugins s1 = orderedPlugins s
     \<and> (\<exists>delta. trace s1 = trace s @ delta \<and> only HHotReloadComplete delta)"
  by (rule forEach_only [where cb = hotReloadCallback, OF _ assms]) (erule hotReloadCallback_only)

lemma createEach_only:
  "createEach ds s = (r, s1) \<Longrightarrow> \<exists>delta. trace s1 = trace s @ delta \<and> only HCreate delta"
proof (induction ds arbitrary: s)
  case Nil
  then show ?case by simp
next
  case (Cons d ds)
  obtain r0 s0 where inv: "invoke (name d) HCreate (create d) s = (r0, s0)"
    by (cases "invoke (name d) HCreate (create d) s")
  from invoke_only [OF inv] obtain delta0 where
    t0: "trace s0 = trace s @ delta0" and o0: "only HCreate delta0" by blast
  show ?case
  proof (cases r0)
    case (Returned plugin)
    with inv Cons.prems have
      "createEach ds (s0\<lparr> activePlugins := (activePlugins s0)(name d \<mapsto> plugin) \<rparr>) = (r, s1)"
      by simp
    from Cons.IH [OF this] t0 o0 show ?thesis by auto
  next
    case (Threw m)
    with inv Cons.prems t0 o0 show ?thesis by auto
  qed
qed

lemma rebuild_phases:
  "rebuild cfg saved s = (r, s') \<Longrightarrow>
     \<exists>cr re ini. trace s' = trace s @ cr @ re @ ini
        \<and> only HCreate cr \<and> only HRestoreState re \<and> only HInit ini"
proof -
  assume reb: "rebuild cfg saved s = (r, s')"
  obtain r1 s1 where c: "createPluginInstances (s\<lparr> orderedPlugins := getOrderedPlugins cfg \<rparr>) = (r1, s1)"
    by (cases "createPluginInstances (s\<lparr> orderedPlugins := getOrderedPlugins cfg \<rparr>)")
  from createEach_only [OF c [unfolded createPluginInstances_def]] obtain cr where
    t1: "trace s1 = trace s @ cr" and o1: "only HCreate cr" by auto
  show ?thesis
  proof (cases r1)
    case (Threw m)
    with reb c have "s' = s1" by (simp add: rebuild_def)
    with t1 have "trace s' = trace s @ cr @ [] @ []" by simp
    with o1 only_simps(1) show ?thesis by blast
  next
    case (Returned u)
    obtain r2 n2 s2 where re: "(case saved of
          None \<Rightarrow> (Returned (), 0, s1)
        | Some st \<Rightarrow> forEachPluginInOrder (restoreCallback st) (orderedPlugins s1) 0 s1) = (r2, n2, s2)"
      by (cases "(case saved of
          None \<Rightarrow> (Returned (), 0::nat, s1)
        | Some st \<Rightarrow> forEachPluginInOrder (restoreCallback st) (orderedPlugins s1) 0 s1)")
    have "\<exists>delta. trace s2 = trace s1 @ delta \<and> only HRestoreState delta"
    proof (cases saved)
      case None
      with re show ?thesis by simp
    next
      case (Some st)
      with re have "forEachPluginInOrder (restoreCallback st) (orderedPlugins s1) 0 s1 = (r2, n2, s2)"
        by simp
      from restore_pass_only [OF this]
      show ?thesis by simp
    qed
    then obtain rs where t2: "trace s2 = trace s1 @ rs" and o2: "only HRestoreState rs" by blast
    show ?thesis
    proof (cases r2)
      case (Threw m)
      with reb c Returned re have "s' = s2" by (simp add: rebuild_def)
      with t1 t2 have "trace s' = trace s @ cr @ rs @ []" by simp
      with o1 o2 only_simps(1) show ?thesis by blast
    next
      case r2: (Returned u2)
      obtain r3 u3 s3 where fe: "forEachPluginInOrder initCallback (orderedPlugins s2) () s2 = (r3, u3, s3)"
        by (cases "forEachPluginInOrder initCallback (orderedPlugins s2) () s2")
      from init_pass_only [OF fe]
      obtain ini where t3: "trace s3 = trace s2 @ ini" and o3: "only HInit ini" by blast
      from reb c Returned re r2 fe have "s' = s3" by (simp add: rebuild_def)
      with t1 t2 t3 have "trace s' = trace s @ cr @ rs @ ini" by simp
      with o1 o2 o3 show ?thesis by blast
    qed
  qed
qed

lemma reinitializePlayers_only:
  "\<exists>hrc. trace (reinitializePlayers G s) = trace s @ hrc \<and> only HHotReloadComplete hrc"
proof (cases "0 < connectedPlayerCount G s")
  case False
  then show ?thesis by (simp add: reinitializePlayers_def)
next
  case True
  obtain r u s1 where fe: "forEachPluginInOrder hotReloadCallback (orderedPlugins s) () s = (r, u, s1)"
    by (cases "forEachPluginInOrder hotReloadCallback (orderedPlugins s) () s")
  from hotReload_pass_only [OF fe] True fe show ?thesis
    by (simp add: reinitializePlayers_def)
qed

lemma after_reload_phases:
  assumes "after_reload G cfg saved s = (r, s')"
  shows "\<exists>cr re ini hrc. trace s' = trace s @ cr @ re @ ini @ hrc
        \<and> only HCreate cr \<and> only HRestoreState re \<and> only HInit ini
        \<and> only HHotReloadComplete hrc"
proof -
  obtain r1 s1 where reb: "rebuild cfg saved s = (r1, s1)"
    by (cases "rebuild cfg saved s")
  from rebuild_phases [OF reb] obtain cr re ini where
    t1: "trace s1 = trace s @ cr @ re @ ini"
    and o: "only HCreate cr" "only HRestoreState re" "only HInit ini"
    by blast
  from reinitializePlayers_only [of G s1] obtain hrc where
    t2: "trace (reinitializePlayers G s1) = trace s1 @ hrc" and o2: "only HHotReloadComplete hrc"
    by blast
  show ?thesis
  proof (cases r1)
    case (Threw m)
    with assms reb have "s' = s1" by (simp add: after_reload_def)
    with t1 have "trace s' = trace s @ cr @ re @ ini @ []" by simp
    with o only_simps(1) show ?thesis by blast
  next
    case (Returned u)
    with assms reb have "s' = reinitializePlayers G s1" by (simp add: after_reload_def)
    with t1 t2 have "trace s' = trace s @ cr @ re @ ini @ hrc" by simp
    with o o2 show ?thesis by blast
  qed
qed

lemma only_nth: "only k xs \<Longrightarrow> i < length xs \<Longrightarrow> hook_of (xs ! i) = k"
  by (simp add: only_def)

lemma restore_index_before_init_index:
  assumes "only HCreate cr" "only HRestoreState re" "only HInit ini" "only HHotReloadComplete hrc"
    and i: "i < length (cr @ re @ ini @ hrc)" "hook_of ((cr @ re @ ini @ hrc) ! i) = HRestoreState"
    and j: "j < length (cr @ re @ ini @ hrc)" "hook_of ((cr @ re @ ini @ hrc) ! j) = HInit"
  shows "i < j"
proof -
  have i_hi: "i < length cr + length re"
  proof (rule ccontr)
    assume "\<not> i < length cr + length re"
    then have ge: "length cr + length re \<le> i" by simp
    then have "(cr @ re @ ini @ hrc) ! i = (ini @ hrc) ! (i - length cr - length re)"
      using nth_append [of "cr @ re" "ini @ hrc" i] by simp
    moreover from ge i(1) have "i - length cr - length re < length (ini @ hrc)" by simp
    moreover from assms(3,4) have "\<forall>c \<in> set (ini @ hrc). hook_of c \<noteq> HRestoreState"
      by (auto simp: only_def)
    ultimately show False using i(2) by (metis nth_mem)
  qed
  have j_lo: "length cr + length re \<le> j"
  proof (rule ccontr)
    assume "\<not> length cr + length re \<le> j"
    then have lt: "j < length (cr @ re)" by simp
    then have "(cr @ re @ ini @ hrc) ! j = (cr @ re) ! j"
      using nth_append [of "cr @ re" "ini @ hrc" j] by simp
    moreover from assms(1,2) have "\<forall>c \<in> set (cr @ re). hook_of c \<noteq> HInit"
      by (auto simp: only_def)
    ultimately show False using j(2) lt by (metis nth_mem)
  qed
  from i_hi j_lo show ?thesis by simp
qed

lemma initializeEach_events:
  "initializeEach ds s = (r, s1) \<Longrightarrow>
     \<exists>delta. trace s1 = trace s @ delta \<and> (\<forall>c \<in> set delta. hook_of c \<noteq> HRestoreState)"
proof (induction ds arbitrary: s)
  case Nil
  then show ?case by simp
next
  case (Cons d ds)
  obtain r0 s0 where inv: "invoke (name d) HCreate (create d) s = (r0, s0)"
    by (cases "invoke (name d) HCreate (create d) s")
  from invoke_only [OF inv] obtain delta0 where
    t0: "trace s0 = trace s @ delta0" and o0: "only HCreate delta0" by blast
  show ?case
  proof (cases r0)
    case (Threw m)
    with inv Cons.prems t0 o0 show ?thesis by (auto simp: only_def)
  next
    case (Returned plugin)
    obtain r2 s2 where ci: "callInit plugin (name d) s0 = (r2, s2)"
      by (cases "callInit plugin (name d) s0")
    from callInit_only [OF ci] obtain delta2 where
      t2: "trace s2 = trace s0 @ delta2" and o2: "only HInit delta2" by blast
    show ?thesis
    proof (cases r2)
      case (Threw m)
      with inv Returned ci Cons.prems t0 o0 t2 o2 show ?thesis by (auto simp: only_def)
    next
      case r2: (Returned u)
      with inv Returned ci Cons.prems have
        "initializeEach ds (s2\<lparr> activePlugins := (activePlugins s2)(name d \<mapsto> plugin) \<rparr>) = (r, s1)"
        by simp
      from Cons.IH [OF this] obtain delta3 where
        "trace s1 = trace s2 @ delta3" "\<forall>c \<in> set delta3. hook_of c \<noteq> HRestoreState"
        by auto
      with t0 o0 t2 o2 show ?thesis by (auto simp: only_def)
    qed
  qed
qed

text \<open>
  C6. In the trace of the \<open>after\<close> callback of a reload (the checkpoint rebuild), every
  entry of a \<open>restoreState\<close> call, its return or exception included, stands before every
  entry of an \<open>init\<close> call: each restore attempt is complete before the first \<open>init()\<close> is
  invoked. The trace of a fresh boot (\<open>initializePlugins\<close>) has no \<open>restoreState\<close> entry.
\<close>

theorem restore_completes_before_init:
  "(after_reload G cfg saved s = (r, s') \<longrightarrow>
      (\<exists>delta. trace s' = trace s @ delta
         \<and> (\<forall>i j. i < length delta \<and> j < length delta
                \<and> hook_of (delta ! i) = HRestoreState \<and> hook_of (delta ! j) = HInit
              \<longrightarrow> i < j)))
   \<and> (initializePlugins cfg s = (r, s') \<longrightarrow>
      (\<exists>delta. trace s' = trace s @ delta \<and> (\<forall>c \<in> set delta. hook_of c \<noteq> HRestoreState)))"
proof (intro conjI impI)
  assume "after_reload G cfg saved s = (r, s')"
  from after_reload_phases [OF this] obtain cr re ini hrc where
    t: "trace s' = trace s @ cr @ re @ ini @ hrc"
    and o: "only HCreate cr" "only HRestoreState re" "only HInit ini" "only HHotReloadComplete hrc"
    by blast
  from restore_index_before_init_index [OF o]
  have "\<forall>i j. i < length (cr @ re @ ini @ hrc) \<and> j < length (cr @ re @ ini @ hrc)
          \<and> hook_of ((cr @ re @ ini @ hrc) ! i) = HRestoreState
          \<and> hook_of ((cr @ re @ ini @ hrc) ! j) = HInit \<longrightarrow> i < j"
    by blast
  with t show "\<exists>delta. trace s' = trace s @ delta
         \<and> (\<forall>i j. i < length delta \<and> j < length delta
                \<and> hook_of (delta ! i) = HRestoreState \<and> hook_of (delta ! j) = HInit
              \<longrightarrow> i < j)"
    by blast
next
  assume "initializePlugins cfg s = (r, s')"
  then have "initializeEach (getOrderedPlugins cfg) (s\<lparr> orderedPlugins := getOrderedPlugins cfg \<rparr>) = (r, s')"
    by (simp add: initializePlugins_def Let_def)
  from initializeEach_events [OF this]
  show "\<exists>delta. trace s' = trace s @ delta \<and> (\<forall>c \<in> set delta. hook_of c \<noteq> HRestoreState)"
    by simp
qed

lemma createEach_registers:
  "createEach ds s = (Returned u, s1) \<Longrightarrow>
     orderedPlugins s1 = orderedPlugins s
     \<and> dom (activePlugins s) \<subseteq> dom (activePlugins s1)
     \<and> name ` set ds \<subseteq> dom (activePlugins s1)"
proof (induction ds arbitrary: s)
  case Nil
  then show ?case by simp
next
  case (Cons d ds)
  obtain r0 s0 where inv: "invoke (name d) HCreate (create d) s = (r0, s0)"
    by (cases "invoke (name d) HCreate (create d) s")
  from invoke_only [OF inv] have k: "activePlugins s0 = activePlugins s"
    "orderedPlugins s0 = orderedPlugins s" by simp_all
  show ?case
  proof (cases r0)
    case (Threw m)
    with inv Cons.prems show ?thesis by simp
  next
    case (Returned plugin)
    with inv Cons.prems have
      "createEach ds (s0\<lparr> activePlugins := (activePlugins s0)(name d \<mapsto> plugin) \<rparr>) = (Returned u, s1)"
      by simp
    from Cons.IH [OF this]
    have o1: "orderedPlugins s1 = orderedPlugins s0"
      and d1: "\<forall>n. n = name d \<or> n \<in> dom (activePlugins s0) \<longrightarrow> n \<in> dom (activePlugins s1)"
      and n1: "name ` set ds \<subseteq> dom (activePlugins s1)"
      by (auto simp: dom_def split: if_splits)
    with k show ?thesis by auto
  qed
qed

lemma init_pass_returns:
  "forEachPluginInOrder initCallback ds acc s = (Returned u, acc1, s1) \<Longrightarrow>
     \<exists>delta. trace s1 = trace s @ delta
       \<and> (\<forall>d \<in> set ds. activePlugins s (name d) \<noteq> None \<longrightarrow> Return (name d) HInit \<in> set delta)"
proof (induction ds arbitrary: acc s)
  case Nil
  then show ?case by simp
next
  case (Cons d ds)
  show ?case
  proof (cases "activePlugins s (name d)")
    case None
    with Cons.prems have "forEachPluginInOrder initCallback ds acc s = (Returned u, acc1, s1)"
      by simp
    from Cons.IH [OF this] None show ?thesis by auto
  next
    case (Some plugin)
    obtain r0 s0 where ci: "callInit plugin (name d) s = (r0, s0)"
      by (cases "callInit plugin (name d) s")
    then have cb: "initCallback plugin (name d) acc s = (r0, acc, s0)"
      by (simp add: initCallback_def)
    with Some Cons.prems obtain u0 where r0: "r0 = Returned u0"
      and rest: "forEachPluginInOrder initCallback ds acc s0 = (Returned u, acc1, s1)"
      by (cases r0) auto
    from ci r0 obtain init_m where "init plugin = Some init_m"
      and inv: "invoke (name d) HInit init_m s = (Returned u0, s0)"
      by (auto simp: callInit_def split: option.splits)
    from invoke_trace [OF inv] invoke_only [OF inv]
    have t0: "trace s0 = trace s @ [Invoke (name d) HInit, Return (name d) HInit]"
      and a0: "activePlugins s0 = activePlugins s"
      by simp_all
    from Cons.IH [OF rest] obtain delta where
      "trace s1 = trace s0 @ delta"
      "\<forall>d \<in> set ds. activePlugins s0 (name d) \<noteq> None \<longrightarrow> Return (name d) HInit \<in> set delta"
      by blast
    with t0 a0 have
      "trace s1 = trace s @ ([Invoke (name d) HInit, Return (name d) HInit] @ delta)"
      "\<forall>d' \<in> set (d # ds). activePlugins s (name d') \<noteq> None \<longrightarrow>
         Return (name d') HInit \<in> set ([Invoke (name d) HInit, Return (name d) HInit] @ delta)"
      by auto
    then show ?thesis by blast
  qed
qed

lemma hotReload_pass_calls:
  "forEachPluginInOrder hotReloadCallback ds acc s = (r, acc1, s1) \<Longrightarrow>
     \<exists>delta. trace s1 = trace s @ delta
       \<and> invoked_names HHotReloadComplete delta = map name (filter (implements_hotReload s) ds)"
proof (induction ds arbitrary: acc s)
  case Nil
  then show ?case by simp
next
  case (Cons d ds)
  show ?case
  proof (cases "activePlugins s (name d)")
    case None
    with Cons.prems have "forEachPluginInOrder hotReloadCallback ds acc s = (r, acc1, s1)"
      by simp
    from Cons.IH [OF this] None show ?thesis by (simp add: implements_hotReload_def)
  next
    case (Some plugin)
    obtain r0 acc0 s0 where cb: "hotReloadCallback plugin (name d) acc s = (r0, acc0, s0)"
      by (cases "hotReloadCallback plugin (name d) acc s")
    then have r0: "r0 = Returned ()"
      by (auto simp: hotReloadCallback_def split: prod.splits)
    from hotReloadCallback_only [OF cb] have a0: "activePlugins s0 = activePlugins s" by simp
    then have impl: "implements_hotReload s0 = implements_hotReload s"
      by (simp add: implements_hotReload_def fun_eq_iff)
    from Some cb r0 Cons.prems have
      "forEachPluginInOrder hotReloadCallback ds acc0 s0 = (r, acc1, s1)" by simp
    from Cons.IH [OF this] impl obtain delta where
      rest: "trace s1 = trace s0 @ delta"
      "invoked_names HHotReloadComplete delta = map name (filter (implements_hotReload s) ds)"
      by auto
    have "\<exists>delta0. trace s0 = trace s @ delta0
        \<and> invoked_names HHotReloadComplete delta0 = (if implements_hotReload s d then [name d] else [])"
    proof (cases "onHotReloadComplete plugin")
      case None
      with cb Some show ?thesis
        by (simp add: hotReloadCallback_def safeHotReloadComplete_def implements_hotReload_def)
    next
      case hk: (Some hook_m)
      obtain r2 s2 where inv: "invoke (name d) HHotReloadComplete hook_m s = (r2, s2)"
        by (cases "invoke (name d) HHotReloadComplete hook_m s")
      with hk cb have "s0 = s2 \<or> (\<exists>t. s0 = Msg t s2)"
        by (auto simp: hotReloadCallback_def safeHotReloadComplete_def split: outcome.splits)
      then have "trace s0 = trace s2" by auto
      with invoke_trace [OF inv] Some hk show ?thesis
        by (cases r2) (simp_all add: implements_hotReload_def)
    qed
    then obtain delta0 where "trace s0 = trace s @ delta0"
      "invoked_names HHotReloadComplete delta0 = (if implements_hotReload s d then [name d] else [])"
      by blast
    with rest have "trace s1 = trace s @ (delta0 @ delta)"
      "invoked_names HHotReloadComplete (delta0 @ delta)
         = map name (filter (implements_hotReload s) (d # ds))"
      by simp_all
    then show ?thesis by blast
  qed
qed

lemma only_other_hook: "only k delta \<Longrightarrow> k \<noteq> k' \<Longrightarrow> invoked_names k' delta = []"
  by (induction k' delta rule: invoked_names.induct) auto

lemma rebuild_returned:
  assumes "rebuild cfg saved s = (Returned u, s1)"
  shows "orderedPlugins s1 = getOrderedPlugins cfg
     \<and> name ` set (getOrderedPlugins cfg) \<subseteq> dom (activePlugins s1)
     \<and> (\<exists>before. trace s1 = trace s @ before
           \<and> invoked_names HHotReloadComplete before = []
           \<and> (\<forall>d \<in> set (getOrderedPlugins cfg). Return (name d) HInit \<in> set before))"
proof -
  obtain r1 sa where c: "createPluginInstances (s\<lparr> orderedPlugins := getOrderedPlugins cfg \<rparr>) = (r1, sa)"
    by (cases "createPluginInstances (s\<lparr> orderedPlugins := getOrderedPlugins cfg \<rparr>)")
  with assms obtain u1 where r1: "r1 = Returned u1"
    by (cases r1) (auto simp: rebuild_def)
  from createEach_registers [OF c [unfolded createPluginInstances_def r1]]
  have oa: "orderedPlugins sa = getOrderedPlugins cfg"
    and da: "name ` set (getOrderedPlugins cfg) \<subseteq> dom (activePlugins sa)"
    by simp_all
  from createEach_only [OF c [unfolded createPluginInstances_def]] obtain cr where
    ta: "trace sa = trace s @ cr" and oc: "only HCreate cr" by auto
  obtain r2 n2 sb where re: "(case saved of
        None \<Rightarrow> (Returned (), 0, sa)
      | Some st \<Rightarrow> forEachPluginInOrder (restoreCallback st) (orderedPlugins sa) 0 sa) = (r2, n2, sb)"
    by (cases "(case saved of
        None \<Rightarrow> (Returned (), 0::nat, sa)
      | Some st \<Rightarrow> forEachPluginInOrder (restoreCallback st) (orderedPlugins sa) 0 sa)")
  have keep: "activePlugins sb = activePlugins sa \<and> orderedPlugins sb = orderedPlugins sa
      \<and> (\<exists>delta. trace sb = trace sa @ delta \<and> only HRestoreState delta)"
  proof (cases saved)
    case None
    with re show ?thesis by simp
  next
    case (Some st)
    with re have "forEachPluginInOrder (restoreCallback st) (orderedPlugins sa) 0 sa = (r2, n2, sb)"
      by simp
    from restore_pass_only [OF this] show ?thesis .
  qed
  then obtain rs where ab: "activePlugins sb = activePlugins sa"
    and ob: "orderedPlugins sb = orderedPlugins sa"
    and tb: "trace sb = trace sa @ rs" and ors: "only HRestoreState rs"
    by blast
  from assms c r1 re obtain u2 where r2: "r2 = Returned u2"
    by (cases r2) (auto simp: rebuild_def)
  obtain r3 u3 sc where fe: "forEachPluginInOrder initCallback (orderedPlugins sb) () sb = (r3, u3, sc)"
    by (cases "forEachPluginInOrder initCallback (orderedPlugins sb) () sb")
  with assms c r1 re r2 have r3: "r3 = Returned u" and sc: "sc = s1"
    by (simp_all add: rebuild_def)
  from init_pass_only [OF fe] obtain ini where
    ac: "activePlugins sc = activePlugins sb" and oc3: "orderedPlugins sc = orderedPlugins sb"
    and tc: "trace sc = trace sb @ ini" and oi: "only HInit ini"
    by blast
  from init_pass_returns [OF fe [unfolded r3]] tc have
    rets: "\<forall>d \<in> set (orderedPlugins sb). activePlugins sb (name d) \<noteq> None
        \<longrightarrow> Return (name d) HInit \<in> set ini"
    by auto
  have all_ret: "\<forall>d \<in> set (getOrderedPlugins cfg). Return (name d) HInit \<in> set (cr @ rs @ ini)"
    using rets ob oa ab da by auto
  have none: "invoked_names HHotReloadComplete (cr @ rs @ ini) = []"
    using only_other_hook [OF oc] only_other_hook [OF ors] only_other_hook [OF oi] by simp
  have "trace s1 = trace s @ (cr @ rs @ ini)"
    using ta tb tc sc by simp
  with none all_ret have "\<exists>before. trace s1 = trace s @ before
      \<and> invoked_names HHotReloadComplete before = []
      \<and> (\<forall>d \<in> set (getOrderedPlugins cfg). Return (name d) HInit \<in> set before)"
    by blast
  moreover have "orderedPlugins s1 = getOrderedPlugins cfg"
    using sc oc3 ob oa by simp
  moreover have "name ` set (getOrderedPlugins cfg) \<subseteq> dom (activePlugins s1)"
    using sc ac ab da by simp
  ultimately show ?thesis by blast
qed

lemma count_list_names:
  "distinct (map name ds) \<Longrightarrow> d \<in> set ds \<Longrightarrow>
     count_list (map name (filter P ds)) (name d) = (if P d then 1 else 0)"
proof (induction ds)
  case Nil
  then show ?case by simp
next
  case (Cons a ds)
  have notin: "n \<notin> name ` set ds \<Longrightarrow> count_list (map name (filter P ds)) n = 0" for n
    by (induction ds) auto
  from Cons show ?case by (auto simp: notin)
qed

lemma count_list_names_notin:
  "n \<notin> name ` set ds \<Longrightarrow> count_list (map name (filter P ds)) n = 0"
  by (induction ds) auto

text \<open>
  C5 (as amended). Let the rebuild of a reload cycle complete (every factory and every
  \<open>init()\<close> returns), with distinct plugin names. The hook \<open>onHotReloadComplete\<close> is never
  invoked during the rebuild, and when the rebuild is over, \<open>init()\<close> has returned on every
  plugin of the rebuilt set. After that, if at least one player slot holds a valid
  controller, the hook is invoked on the plugins that implement it, in list order, each
  exactly once; if no slot does, the hook is not invoked at all.
\<close>

theorem hotReloadComplete_once_after_all_init:
  assumes "distinct (map name (getOrderedPlugins cfg))"
    and "rebuild cfg saved s = (Returned (), s1)"
  shows "after_reload G cfg saved s = (Returned (), reinitializePlayers G s1)
     \<and> (\<exists>before hrc.
          trace s1 = trace s @ before
          \<and> trace (reinitializePlayers G s1) = trace s @ before @ hrc
          \<and> invoked_names HHotReloadComplete before = []
          \<and> (\<forall>d \<in> set (getOrderedPlugins cfg). Return (name d) HInit \<in> set before)
          \<and> invoked_names HHotReloadComplete hrc
              = (if 0 < connectedPlayerCount G s1
                 then map name (filter (implements_hotReload s1) (getOrderedPlugins cfg)) else [])
          \<and> (\<forall>d \<in> set (getOrderedPlugins cfg).
                count_list (invoked_names HHotReloadComplete hrc) (name d)
                  = (if 0 < connectedPlayerCount G s1 \<and> implements_hotReload s1 d then 1 else 0)))"
proof
  show "after_reload G cfg saved s = (Returned (), reinitializePlayers G s1)"
    using assms(2) by (simp add: after_reload_def)
next
  from rebuild_returned [OF assms(2)] obtain before where
    ord: "orderedPlugins s1 = getOrderedPlugins cfg"
    and t1: "trace s1 = trace s @ before"
    and none: "invoked_names HHotReloadComplete before = []"
    and rets: "\<forall>d \<in> set (getOrderedPlugins cfg). Return (name d) HInit \<in> set before"
    by blast
  have "\<exists>hrc. trace (reinitializePlayers G s1) = trace s1 @ hrc
      \<and> invoked_names HHotReloadComplete hrc
          = (if 0 < connectedPlayerCount G s1
             then map name (filter (implements_hotReload s1) (getOrderedPlugins cfg)) else [])"
  proof (cases "0 < connectedPlayerCount G s1")
    case False
    then show ?thesis by (simp add: reinitializePlayers_def)
  next
    case True
    obtain r u s2 where
      fe: "forEachPluginInOrder hotReloadCallback (orderedPlugins s1) () s1 = (r, u, s2)"
      by (cases "forEachPluginInOrder hotReloadCallback (orderedPlugins s1) () s1")
    from hotReload_pass_calls [OF fe] True fe ord show ?thesis
      by (simp add: reinitializePlayers_def)
  qed
  then obtain hrc where t2: "trace (reinitializePlayers G s1) = trace s1 @ hrc"
    and calls: "invoked_names HHotReloadComplete hrc
          = (if 0 < connectedPlayerCount G s1
             then map name (filter (implements_hotReload s1) (getOrderedPlugins cfg)) else [])"
    by blast
  have counts: "\<forall>d \<in> set (getOrderedPlugins cfg).
      count_list (invoked_names HHotReloadComplete hrc) (name d)
        = (if 0 < connectedPlayerCount G s1 \<and> implements_hotReload s1 d then 1 else 0)"
    using calls count_list_names [OF assms(1)] by simp
  from t1 t2 have "trace (reinitializePlayers G s1) = trace s @ before @ hrc" by simp
  with t1 none rets calls counts
  show "\<exists>before hrc.
          trace s1 = trace s @ before
          \<and> trace (reinitializePlayers G s1) = trace s @ before @ hrc
          \<and> invoked_names HHotReloadComplete before = []
          \<and> (\<forall>d \<in> set (getOrderedPlugins cfg). Return (name d) HInit \<in> set before)
          \<and> invoked_names HHotReloadComplete hrc
              = (if 0 < connectedPlayerCount G s1
                 then map name (filter (implements_hotReload s1) (getOrderedPlugins cfg)) else [])
          \<and> (\<forall>d \<in> set (getOrderedPlugins cfg).
                count_list (invoked_names HHotReloadComplete hrc) (name d)
                  = (if 0 < connectedPlayerCount G s1 \<and> implements_hotReload s1 d then 1 else 0))"
    by blast
qed

lemma ordered_reload:
  "getOrderedPlugins cfg_reload = [dsc ''reacquirer'' (Some 10) reacquirer, dsc ''keeper'' None keeper]"
  by (simp add: getOrderedPlugins_def pluginsToLoad_def hasEnabledList_def cfg_reload_def
      priority_or_default_def DEFAULT_PRIORITY_def dsc_def)

lemma validate_score: "valid (validateStateShape_run [Obj [(''score'', VNum 7)] []] (VRef 0) n)"
  by (simp add: validateStateShape_run_def validateStateShape_def Let_def checkValue.simps
      deref_def isEntityLike_def)

lemma rebuild_reload: "rebuild cfg_reload saved_keeper boot_orch = (Returned (), rebuilt_orch)"
  by (simp add: rebuild_def ordered_reload createPluginInstances_def boot_orch_def dsc_def
      invoke_def saved_keeper_def restoreCallback_def safeRestoreState_def keeper_def
      reacquirer_def validate_score initCallback_def callInit_def rebuilt_orch_def Let_def)

lemma connected_iff:
  "0 < connectedPlayerCount G s \<longleftrightarrow> (\<exists>slot < MAX_PLAYER_SLOTS. G (ext s) slot = Some True)"
  by (auto simp: connectedPlayerCount_def filter_empty_conv)

lemma one_player_connected: "0 < connectedPlayerCount one_player rebuilt_orch"
  unfolding connected_iff
  by (rule exI [of _ 3]) (simp add: one_player_def MAX_PLAYER_SLOTS_def)

lemma no_players_connected: "\<not> 0 < connectedPlayerCount no_players rebuilt_orch"
  unfolding connected_iff by (simp add: no_players_def)

lemma reinitialize_one_player:
  "reinitializePlayers one_player rebuilt_orch
     = rebuilt_orch\<lparr> ext := [VRef 0, VStr ''init'', VStr ''reacquired''],
         trace := trace rebuilt_orch
           @ [Invoke ''reacquirer'' HHotReloadComplete, Return ''reacquirer'' HHotReloadComplete] \<rparr>"
  using one_player_connected
  by (simp add: reinitializePlayers_def)
     (simp add: rebuilt_orch_def boot_orch_def dsc_def hotReloadCallback_def
       safeHotReloadComplete_def reacquirer_def keeper_def invoke_def)

theorem hotReloadComplete_once_after_all_init_witness:
  "fst (after_reload one_player cfg_reload saved_keeper boot_orch) = Returned ()
   \<and> invoked_names HHotReloadComplete
        (trace (snd (after_reload one_player cfg_reload saved_keeper boot_orch))) = [''reacquirer'']
   \<and> count_list (invoked_names HHotReloadComplete
        (trace (snd (after_reload one_player cfg_reload saved_keeper boot_orch)))) ''reacquirer'' = 1"
proof -
  have d: "distinct (map name (getOrderedPlugins cfg_reload))"
    by (simp add: ordered_reload dsc_def)
  from hotReloadComplete_once_after_all_init [OF d rebuild_reload, of one_player]
  have "after_reload one_player cfg_reload saved_keeper boot_orch
      = (Returned (), reinitializePlayers one_player rebuilt_orch)"
    by simp
  then show ?thesis
    by (simp add: reinitialize_one_player) (simp add: rebuilt_orch_def)
qed

text \<open>
  C5 as stated fails: with no connected player the cycle completes, the plugin
  \<open>reacquirer\<close> implements \<open>onHotReloadComplete\<close>, and the hook is not invoked.
\<close>

theorem hotReloadComplete_skipped_without_players:
  "fst (after_reload no_players cfg_reload saved_keeper boot_orch) = Returned ()
   \<and> implements_hotReload (snd (after_reload no_players cfg_reload saved_keeper boot_orch))
        (dsc ''reacquirer'' (Some 10) reacquirer)
   \<and> invoked_names HHotReloadComplete
        (trace (snd (after_reload no_players cfg_reload saved_keeper boot_orch))) = []"
  using no_players_connected
  by (simp add: after_reload_def rebuild_reload reinitializePlayers_def)
     (simp add: rebuilt_orch_def implements_hotReload_def dsc_def reacquirer_def)

theorem restore_completes_before_init_witness:
  "trace (snd (after_reload one_player cfg_reload saved_keeper boot_orch))
     = [Invoke ''reacquirer'' HCreate, Return ''reacquirer'' HCreate,
        Invoke ''keeper'' HCreate, Return ''keeper'' HCreate,
        Invoke ''keeper'' HRestoreState, Return ''keeper'' HRestoreState,
        Invoke ''reacquirer'' HInit, Return ''reacquirer'' HInit,
        Invoke ''keeper'' HInit, Return ''keeper'' HInit,
        Invoke ''reacquirer'' HHotReloadComplete, Return ''reacquirer'' HHotReloadComplete]
   \<and> trace (snd (initializePlugins cfg_reload boot_orch))
     = [Invoke ''reacquirer'' HCreate, Return ''reacquirer'' HCreate,
        Invoke ''reacquirer'' HInit, Return ''reacquirer'' HInit,
        Invoke ''keeper'' HCreate, Return ''keeper'' HCreate,
        Invoke ''keeper'' HInit, Return ''keeper'' HInit]"
proof -
  have fresh: "trace (snd (initializePlugins cfg_reload boot_orch))
     = [Invoke ''reacquirer'' HCreate, Return ''reacquirer'' HCreate,
        Invoke ''reacquirer'' HInit, Return ''reacquirer'' HInit,
        Invoke ''keeper'' HCreate, Return ''keeper'' HCreate,
        Invoke ''keeper'' HInit, Return ''keeper'' HInit]"
    by (simp add: initializePlugins_def ordered_reload Let_def boot_orch_def dsc_def invoke_def
        callInit_def keeper_def reacquirer_def)
  have reload: "after_reload one_player cfg_reload saved_keeper boot_orch
      = (Returned (), reinitializePlayers one_player rebuilt_orch)"
    by (simp add: after_reload_def rebuild_reload)
  from restore_completes_before_init [of one_player cfg_reload saved_keeper boot_orch
      "Returned ()" "reinitializePlayers one_player rebuilt_orch"] reload fresh
  show ?thesis
    by (simp add: reinitialize_one_player) (simp add: rebuilt_orch_def)
qed


end
